theory Spec2Isabelle
  imports Main "HOL-Library.Word"
begin

unbundle bit_operations_syntax

section \<open>Data model of \<^verbatim>\<open>src/template_mgr/template.c\<close>\<close>

type_synonym u8 = "8 word"
type_synonym u16 = "16 word"
type_synonym u32 = "32 word"
type_synonym u64 = "64 word"

text \<open>Return codes of the library (\<^verbatim>\<open>FDS_OK\<close>, \<^verbatim>\<open>FDS_ERR_FORMAT\<close>, \<^verbatim>\<open>FDS_ERR_NOMEM\<close>).\<close>

datatype ret_code = FDS_OK | FDS_ERR_FORMAT | FDS_ERR_NOMEM

text \<open>
  Modelled from the spec: \<^verbatim>\<open>libfds/template.h\<close> (the declarations of
  \<^verbatim>\<open>enum fds_template_type\<close>, of the flag constants and of the two structures) is not
  among the sources. The spec gives the template type as one of Normal and Options and every flag
  word as a bitset over named flags. A bitset is a set of flag names here: \<^verbatim>\<open>x |= F\<close> is
  \<open>insert F x\<close>, \<^verbatim>\<open>x &= ~F\<close> is \<open>x - {F}\<close> and \<^verbatim>\<open>x & F\<close> is \<open>F \<in> x\<close>.
\<close>

datatype fds_template_type = FDS_TYPE_TEMPLATE | FDS_TYPE_TEMPLATE_OPTS

datatype tfield_feature =
    FDS_TFIELD_SCOPE
  | FDS_TFIELD_MULTI_IE
  | FDS_TFIELD_LAST_IE
  | FDS_TFIELD_FLOW_KEY
  | FDS_TFIELD_STRUCTURED
  | FDS_TFIELD_REVERSE
  | FDS_TFIEDL_BKEY_COM
  | FDS_TFIELD_BKEY_SRC
  | FDS_TFIELD_BKEY_DST

datatype template_feature =
    FDS_TEMPLATE_HAS_MULTI_IE
  | FDS_TEMPLATE_HAS_DYNAMIC
  | FDS_TEMPLATE_HAS_REVERSE
  | FDS_TEMPLATE_HAS_STRUCT
  | FDS_TEMPLATE_HAS_FKEY

datatype opts_type =
    FDS_OPTS_MPROC_STAT
  | FDS_OPTS_MPROC_RELIABILITY_STAT
  | FDS_OPTS_EPROC_RELIABILITY_STAT
  | FDS_OPTS_FKEYS
  | FDS_OPTS_IE_TYPE

text \<open>
  Modelled from the spec: the IE dictionary is an external collaborator. An IE definition carries
  its data type (of which only the three structured kinds are told apart), \<open>is_reverse\<close>, its
  name (a \<^verbatim>\<open>char *\<close> that may be NULL) and the reverse element, of which the code reads
  only \<^verbatim>\<open>scope->pen\<close> and \<^verbatim>\<open>id\<close>. The dictionary itself is its lookup function
  \<^verbatim>\<open>fds_iemgr_elem_find_id\<close>.
\<close>

datatype fds_iemgr_element_type =
    FDS_ET_BASIC_LIST
  | FDS_ET_SUB_TEMPLATE_LIST
  | FDS_ET_SUB_TEMPLATE_MULTILIST
  | FDS_ET_OTHER nat

record fds_iemgr_elem =
  data_type :: fds_iemgr_element_type
  is_reverse :: bool
  reverse_elem :: "(u32 \<times> u16) option"
  name :: "string option"

type_synonym fds_iemgr_t = "u32 \<Rightarrow> u16 \<Rightarrow> fds_iemgr_elem option"

text \<open>\<^verbatim>\<open>struct fds_tfield\<close>; \<open>def_f\<close> is the weak reference to the definition, NULL as \<open>None\<close>.\<close>

record fds_tfield =
  id_f :: u16
  en :: u32
  length_f :: u16
  offset :: u16
  flags_f :: "tfield_feature set"
  def_f :: "fds_iemgr_elem option"

text \<open>
  \<^verbatim>\<open>struct fds_template\<close>; \<open>raw\<close> is \<^verbatim>\<open>raw.data\<close> with \<^verbatim>\<open>raw.length\<close> its
  length, \<open>fields_t\<close> is the trailing array \<^verbatim>\<open>fields\<close>, which holds \<open>fields_cnt_total\<close> elements.
\<close>

record fds_template =
  type_t :: fds_template_type
  opts_types :: "opts_type set"
  id_t :: u16
  flags_t :: "template_feature set"
  data_length :: u16
  raw :: "u8 list"
  fields_cnt_total :: u16
  fields_cnt_scope :: u16
  fields_t :: "fds_tfield list"

definition wf_template :: "fds_template \<Rightarrow> bool" where
  "wf_template t \<longleftrightarrow> length (fields_t t) = unat (fields_cnt_total t)"

text \<open>What \<^verbatim>\<open>calloc\<close> returns: every member zero.\<close>

definition zero_tfield :: fds_tfield where
  "zero_tfield = \<lparr>id_f = 0, en = 0, length_f = 0, offset = 0, flags_f = {}, def_f = None\<rparr>"

text \<open>
  \<^verbatim>\<open>template_create_empty\<close>; the flag says whether \<^verbatim>\<open>calloc\<close> succeeds. The template
  type of the zeroed memory is the enumeration's first value.
\<close>

definition template_create_empty :: "bool \<Rightarrow> u16 \<Rightarrow> fds_template option" where
  "template_create_empty calloc_ok field_cnt =
     (if calloc_ok then
        Some \<lparr>type_t = FDS_TYPE_TEMPLATE, opts_types = {}, id_t = 0, flags_t = {},
              data_length = 0, raw = [], fields_cnt_total = 0, fields_cnt_scope = 0,
              fields_t = replicate (unat field_cnt) zero_tfield\<rparr>
      else None)"

section \<open>Reading the wire format\<close>

text \<open>
  The raw template is a list of octets. \<^verbatim>\<open>ntohs\<close> and \<^verbatim>\<open>ntohl\<close> of the member at
  octet \<open>pos\<close>: big-endian.
\<close>

definition ntohs_at :: "u8 list \<Rightarrow> nat \<Rightarrow> u16" where
  "ntohs_at bs pos = push_bit 8 (ucast (bs ! pos)) OR ucast (bs ! (pos + 1))"

definition ntohl_at :: "u8 list \<Rightarrow> nat \<Rightarrow> u32" where
  "ntohl_at bs pos =
     push_bit 24 (ucast (bs ! pos)) OR push_bit 16 (ucast (bs ! (pos + 1)))
       OR push_bit 8 (ucast (bs ! (pos + 2))) OR ucast (bs ! (pos + 3))"

definition EN_BIT_GET :: "u16 \<Rightarrow> u16" where
  "EN_BIT_GET v = v AND 0x8000"

definition EN_BIT_MASK :: "u16 \<Rightarrow> u16" where
  "EN_BIT_MASK v = v AND 0x7FFF"

text \<open>
  Modelled from the spec: \<^verbatim>\<open>ipfix_structures.h\<close> is not among the sources. The header of
  a template record is 4 octets (id, count), that of an options template record 6 (id, count,
  scope count), a Field Specifier is 4 octets (id, length) and so is an enterprise number; the
  first data set id is 256, the length of a variable-length element 65535, the message header
  16 octets and the set header 4.
\<close>

definition size_normal :: u16 where "size_normal = 4"
definition size_opts :: u16 where "size_opts = 6"
definition field_size :: u16 where "field_size = 4"
definition IPFIX_SET_MIN_DATA_SET_ID :: u16 where "IPFIX_SET_MIN_DATA_SET_ID = 256"
definition IPFIX_VAR_IE_LENGTH :: u16 where "IPFIX_VAR_IE_LENGTH = 65535"
definition max_rec_size :: u16 where "max_rec_size = 65535 - 16 - 4"

section \<open>Parsing\<close>

text \<open>
  \<^verbatim>\<open>template_parse_header\<close>: \<open>Inl\<close> is an error return, which leaves both output
  parameters alone; \<open>Inr\<close> carries the new template and the header's length.
\<close>

definition template_parse_header ::
  "bool \<Rightarrow> fds_template_type \<Rightarrow> u8 list \<Rightarrow> u16 \<Rightarrow> ret_code + (fds_template \<times> u16)" where
  "template_parse_header calloc_ok type ptr len =
     (if len < size_normal then Inl FDS_ERR_FORMAT
      else
        let template_id = ntohs_at ptr 0 in
        if template_id < IPFIX_SET_MIN_DATA_SET_ID then Inl FDS_ERR_FORMAT
        else
          let fields_total = ntohs_at ptr 2;
              opts =
                (if fields_total \<noteq> 0 \<and> type = FDS_TYPE_TEMPLATE_OPTS then
                   (if len < size_opts then Inl FDS_ERR_FORMAT
                    else
                      let fields_scope = ntohs_at ptr 4 in
                      if fields_scope = 0 \<or> fields_scope > fields_total then Inl FDS_ERR_FORMAT
                      else Inr (size_opts, fields_scope))
                 else Inr (size_normal, 0))
          in
            case opts of
              Inl e \<Rightarrow> Inl e
            | Inr (header_size, fields_scope) \<Rightarrow>
                (case template_create_empty calloc_ok fields_total of
                   None \<Rightarrow> Inl FDS_ERR_NOMEM
                 | Some tmplt_ptr \<Rightarrow>
                     Inr (tmplt_ptr\<lparr>type_t := type, id_t := template_id,
                            fields_cnt_total := fields_total,
                            fields_cnt_scope := fields_scope\<rparr>, header_size)))"

text \<open>
  The loop of \<^verbatim>\<open>template_parse_fields\<close>: \<open>i\<close> is the index of the field, \<open>pos\<close> the
  octet \<^verbatim>\<open>field_ptr\<close> points at. The result is \<^verbatim>\<open>len_remain\<close> and the fields.
\<close>

function template_parse_fields_loop ::
  "u8 list \<Rightarrow> nat \<Rightarrow> nat \<Rightarrow> nat \<Rightarrow> u16 \<Rightarrow> fds_tfield list \<Rightarrow> ret_code + (u16 \<times> fds_tfield list)" where
  "template_parse_fields_loop ptr fields_cnt i pos len_remain fs =
     (if i < fields_cnt then
        (if len_remain < field_size then Inl FDS_ERR_FORMAT
         else
           let fs1 = fs[i := (fs ! i)\<lparr>length_f := ntohs_at ptr (pos + 2)\<rparr>];
               fs2 = fs1[i := (fs1 ! i)\<lparr>id_f := ntohs_at ptr pos\<rparr>]
           in
             if EN_BIT_GET (id_f (fs2 ! i)) = 0 then
               template_parse_fields_loop ptr fields_cnt (i + 1) (pos + 4)
                 (len_remain - field_size) fs2
             else
               let len_remain1 = len_remain - field_size in
               if len_remain1 < field_size then Inl FDS_ERR_FORMAT
               else
                 let fs3 = fs2[i := (fs2 ! i)\<lparr>id_f := EN_BIT_MASK (id_f (fs2 ! i))\<rparr>];
                     fs4 = fs3[i := (fs3 ! i)\<lparr>en := ntohl_at ptr (pos + 4)\<rparr>]
                 in
                   template_parse_fields_loop ptr fields_cnt (i + 1) (pos + 8)
                     (len_remain1 - field_size) fs4)
      else Inr (len_remain, fs))"
  by pat_completeness auto
termination
  by (relation "measure (\<lambda>(ptr, fields_cnt, i, pos, len_remain, fs). fields_cnt - i)") auto

declare template_parse_fields_loop.simps [simp del]

text \<open>
  \<^verbatim>\<open>template_parse_fields\<close>; \<open>pos\<close> is the octet of the first Field Specifier. On
  success \<^verbatim>\<open>*len -= len_remain\<close>.
\<close>

definition template_parse_fields ::
  "fds_template \<Rightarrow> u8 list \<Rightarrow> nat \<Rightarrow> u16 \<Rightarrow> ret_code + (fds_template \<times> u16)" where
  "template_parse_fields tmplt ptr pos len =
     (case template_parse_fields_loop ptr (unat (fields_cnt_total tmplt)) 0 pos len (fields_t tmplt) of
        Inl e \<Rightarrow> Inl e
      | Inr (len_remain, fs) \<Rightarrow> Inr (tmplt\<lparr>fields_t := fs\<rparr>, len - len_remain))"

section \<open>Flags, offsets and the data length\<close>

definition add_flag :: "tfield_feature \<Rightarrow> fds_tfield \<Rightarrow> fds_tfield" where
  "add_flag F f = f\<lparr>flags_f := insert F (flags_f f)\<rparr>"

definition del_flag :: "tfield_feature \<Rightarrow> fds_tfield \<Rightarrow> fds_tfield" where
  "del_flag F f = f\<lparr>flags_f := flags_f f - {F}\<rparr>"

text \<open>
  The inner loop of \<^verbatim>\<open>template_fields_calc_flags\<close>: looks from \<open>x\<close> on for a field
  with the id and the enterprise number of field \<open>i\<close>, marks both at the first one found and
  stops. The result is the fields and \<^verbatim>\<open>same_found\<close>.
\<close>

function calc_flags_inner :: "nat \<Rightarrow> nat \<Rightarrow> nat \<Rightarrow> fds_tfield list \<Rightarrow> fds_tfield list \<times> bool" where
  "calc_flags_inner fields_total i x fs =
     (if x < fields_total then
        (if id_f (fs ! i) \<noteq> id_f (fs ! x) \<or> en (fs ! i) \<noteq> en (fs ! x) then
           calc_flags_inner fields_total i (x + 1) fs
         else
           let fs1 = fs[i := add_flag FDS_TFIELD_MULTI_IE (fs ! i)];
               fs2 = fs1[x := add_flag FDS_TFIELD_MULTI_IE (fs1 ! x)]
           in (fs2, True))
      else (fs, False))"
  by pat_completeness auto
termination
  by (relation "measure (\<lambda>(fields_total, i, x, fs). fields_total - x)") auto

declare calc_flags_inner.simps [simp del]

text \<open>
  The outer loop, \<^verbatim>\<open>for (int i = fields_total - 1; i >= 0; --i)\<close>: the first argument
  is \<open>i + 1\<close>, so that the loop ends at 0.
\<close>

fun calc_flags_outer :: "nat \<Rightarrow> nat \<Rightarrow> u64 \<Rightarrow> fds_tfield list \<Rightarrow> fds_tfield list" where
  "calc_flags_outer fields_total 0 hash fs = fs"
| "calc_flags_outer fields_total (Suc i) hash fs =
     (let my_hash = (push_bit (unat (id_f (fs ! i) mod 64)) 1 :: u64) in
      if hash AND my_hash = 0 then
        calc_flags_outer fields_total i (hash OR my_hash)
          (fs[i := add_flag FDS_TFIELD_LAST_IE (fs ! i)])
      else
        let (fs1, same_found) = calc_flags_inner fields_total i (i + 1) fs;
            fs2 = (if \<not> same_found then fs1[i := add_flag FDS_TFIELD_LAST_IE (fs1 ! i)] else fs1)
        in calc_flags_outer fields_total i hash fs2)"

definition template_fields_calc_flags :: "fds_template \<Rightarrow> fds_template" where
  "template_fields_calc_flags tmplt =
     (let fields_total = unat (fields_cnt_total tmplt);
          fields_scope = unat (fields_cnt_scope tmplt);
          fs1 = fold (\<lambda>i fs. fs[i := add_flag FDS_TFIELD_SCOPE (fs ! i)]) [0..<fields_scope]
                  (fields_t tmplt)
      in tmplt\<lparr>fields_t := calc_flags_outer fields_total fields_total 0 fs1\<rparr>)"

text \<open>
  The state of the second loop of \<^verbatim>\<open>template_calc_features\<close>: the template and the
  locals \<^verbatim>\<open>data_len\<close> (32 bits) and \<^verbatim>\<open>field_offset\<close> (16 bits).
\<close>

definition calc_features_step ::
  "nat \<Rightarrow> fds_template \<times> u32 \<times> u16 \<Rightarrow> fds_template \<times> u32 \<times> u16" where
  "calc_features_step i s =
     (case s of (tmplt, data_len, field_offset) \<Rightarrow>
        let fs = fields_t tmplt;
            t1 = tmplt\<lparr>fields_t := fs[i := (fs ! i)\<lparr>offset := field_offset\<rparr>]\<rparr>;
            field_ptr = fields_t t1 ! i;
            t2 = (if FDS_TFIELD_MULTI_IE \<in> flags_f field_ptr
                  then t1\<lparr>flags_t := insert FDS_TEMPLATE_HAS_MULTI_IE (flags_t t1)\<rparr> else t1);
            field_len = length_f field_ptr
        in
          if field_len = IPFIX_VAR_IE_LENGTH then
            (t2\<lparr>flags_t := insert FDS_TEMPLATE_HAS_DYNAMIC (flags_t t2)\<rparr>,
             data_len + 1, IPFIX_VAR_IE_LENGTH)
          else
            (t2, data_len + ucast field_len,
             if field_offset \<noteq> IPFIX_VAR_IE_LENGTH then field_offset + field_len
             else field_offset))"

section \<open>Lookup\<close>

text \<open>
  \<^verbatim>\<open>fds_template_cfind\<close> (and \<^verbatim>\<open>fds_template_find\<close>, which is the same function): the
  pointer to the first field with the enterprise number and id is its index, NULL is \<open>None\<close>.
\<close>

function cfind_loop :: "fds_tfield list \<Rightarrow> nat \<Rightarrow> u32 \<Rightarrow> u16 \<Rightarrow> nat \<Rightarrow> nat option" where
  "cfind_loop fs field_cnt e d i =
     (if i < field_cnt then
        (if id_f (fs ! i) \<noteq> d \<or> en (fs ! i) \<noteq> e then cfind_loop fs field_cnt e d (i + 1)
         else Some i)
      else None)"
  by pat_completeness auto
termination
  by (relation "measure (\<lambda>(fs, field_cnt, e, d, i). field_cnt - i)") auto

declare cfind_loop.simps [simp del]

definition fds_template_cfind :: "fds_template \<Rightarrow> u32 \<Rightarrow> u16 \<Rightarrow> nat option" where
  "fds_template_cfind tmplt e d =
     cfind_loop (fields_t tmplt) (unat (fields_cnt_total tmplt)) e d 0"

definition fds_template_find :: "fds_template \<Rightarrow> u32 \<Rightarrow> u16 \<Rightarrow> nat option" where
  "fds_template_find tmplt e d = fds_template_cfind tmplt e d"

section \<open>Detection of the known Options Templates\<close>

text \<open>
  The inner loop of \<^verbatim>\<open>opts_has_required\<close>; a required element is the pair of its id and
  its enterprise number, as in \<^verbatim>\<open>struct opts_req_id\<close>. The result is \<^verbatim>\<open>field_idx\<close>
  after the loop.
\<close>

function has_required_scan :: "fds_tfield list \<Rightarrow> nat \<Rightarrow> u16 \<times> u32 \<Rightarrow> nat \<Rightarrow> nat" where
  "has_required_scan fs idx_end rec field_idx =
     (if field_idx < idx_end then
        (if fst rec \<noteq> id_f (fs ! field_idx) \<or> snd rec \<noteq> en (fs ! field_idx) then
           has_required_scan fs idx_end rec (field_idx + 1)
         else field_idx)
      else field_idx)"
  by pat_completeness auto
termination
  by (relation "measure (\<lambda>(fs, idx_end, rec, field_idx). idx_end - field_idx)") auto

declare has_required_scan.simps [simp del]

fun opts_has_required :: "fds_template \<Rightarrow> (u16 \<times> u32) list \<Rightarrow> bool" where
  "opts_has_required tmplt [] = True"
| "opts_has_required tmplt (rec # recs) =
     (let idx_start = unat (fields_cnt_scope tmplt);
          idx_end = unat (fields_cnt_total tmplt);
          field_idx = has_required_scan (fields_t tmplt) idx_end rec idx_start
      in if field_idx = idx_end then False else opts_has_required tmplt recs)"

function obs_time_loop :: "fds_tfield list \<Rightarrow> nat \<Rightarrow> nat \<Rightarrow> nat \<Rightarrow> bool" where
  "obs_time_loop fs fields_end i matches =
     (if i < fields_end then
        (if en (fs ! i) \<noteq> 0 then obs_time_loop fs fields_end (i + 1) matches
         else if id_f (fs ! i) < 322 \<or> id_f (fs ! i) > 325 then
           obs_time_loop fs fields_end (i + 1) matches
         else
           let matches1 = matches + 1 in
           if matches1 > 2 then False else obs_time_loop fs fields_end (i + 1) matches1)
      else matches = 2)"
  by pat_completeness auto
termination
  by (relation "measure (\<lambda>(fs, fields_end, i, matches). fields_end - i)") auto

declare obs_time_loop.simps [simp del]

definition opts_has_obs_time :: "fds_template \<Rightarrow> bool" where
  "opts_has_obs_time tmplt =
     obs_time_loop (fields_t tmplt) (unat (fields_cnt_total tmplt))
       (unat (fields_cnt_scope tmplt)) 0"

definition add_opts_type :: "opts_type \<Rightarrow> fds_template \<Rightarrow> fds_template" where
  "add_opts_type T tmplt = tmplt\<lparr>opts_types := insert T (opts_types tmplt)\<rparr>"

text \<open>
  The check of the scope fields shared by \<^verbatim>\<open>opts_detect_mproc\<close> (where a NULL pointer is
  skipped) and \<^verbatim>\<open>opts_detect_ietype\<close> (where it ends the detection).
\<close>

fun scope_ptrs_ok :: "bool \<Rightarrow> fds_template \<Rightarrow> nat option list \<Rightarrow> bool" where
  "scope_ptrs_ok skip_null tmplt [] = True"
| "scope_ptrs_ok skip_null tmplt (None # ptrs) =
     (if skip_null then scope_ptrs_ok skip_null tmplt ptrs else False)"
| "scope_ptrs_ok skip_null tmplt (Some p # ptrs) =
     (if FDS_TFIELD_SCOPE \<notin> flags_f (fields_t tmplt ! p) then False
      else if FDS_TFIELD_MULTI_IE \<in> flags_f (fields_t tmplt ! p) then False
      else scope_ptrs_ok skip_null tmplt ptrs)"

definition opts_detect_mproc :: "fds_template \<Rightarrow> fds_template" where
  "opts_detect_mproc tmplt =
     (let odid_ptr = fds_template_find tmplt 0 149;
          mpid_ptr = fds_template_find tmplt 0 143
      in
        if odid_ptr = None \<and> mpid_ptr = None then tmplt
        else if \<not> scope_ptrs_ok True tmplt [odid_ptr, mpid_ptr] then tmplt
        else
          let t1 = (if opts_has_required tmplt [(40, 0), (41, 0), (42, 0)]
                    then add_opts_type FDS_OPTS_MPROC_STAT tmplt else tmplt)
          in
            if \<not> opts_has_required t1 [(164, 0), (165, 0)] then t1
            else if opts_has_obs_time t1 then add_opts_type FDS_OPTS_MPROC_RELIABILITY_STAT t1
            else t1)"

text \<open>
  The loop of \<^verbatim>\<open>opts_detect_eproc\<close> over \<^verbatim>\<open>eid\<close>; the result is \<^verbatim>\<open>eid_found\<close>.
\<close>

fun eproc_eid_loop :: "fds_template \<Rightarrow> u16 list \<Rightarrow> bool" where
  "eproc_eid_loop tmplt [] = False"
| "eproc_eid_loop tmplt (e # eid) =
     (case fds_template_find tmplt 0 e of
        None \<Rightarrow> eproc_eid_loop tmplt eid
      | Some field_ptr \<Rightarrow>
          if FDS_TFIELD_SCOPE \<in> flags_f (fields_t tmplt ! field_ptr)
             \<and> FDS_TFIELD_LAST_IE \<in> flags_f (fields_t tmplt ! field_ptr)
          then True
          else eproc_eid_loop tmplt eid)"

definition opts_detect_eproc :: "fds_template \<Rightarrow> fds_template" where
  "opts_detect_eproc tmplt =
     (let eid_found = eproc_eid_loop tmplt [130, 131, 144] in
      if \<not> eid_found then tmplt
      else if \<not> opts_has_required tmplt [(166, 0), (167, 0), (168, 0)] then tmplt
      else if opts_has_obs_time tmplt
        then add_opts_type FDS_OPTS_EPROC_RELIABILITY_STAT tmplt
      else tmplt)"

definition opts_detect_flowkey :: "fds_template \<Rightarrow> fds_template" where
  "opts_detect_flowkey tmptl =
     (case fds_template_find tmptl 0 145 of
        None \<Rightarrow> tmptl
      | Some id_ptr \<Rightarrow>
          if FDS_TFIELD_SCOPE \<notin> flags_f (fields_t tmptl ! id_ptr)
             \<or> FDS_TFIELD_MULTI_IE \<in> flags_f (fields_t tmptl ! id_ptr)
          then tmptl
          else if opts_has_required tmptl [(173, 0)] then add_opts_type FDS_OPTS_FKEYS tmptl
          else tmptl)"

definition opts_detect_ietype :: "fds_template \<Rightarrow> fds_template" where
  "opts_detect_ietype tmplt =
     (let ie_id_ptr = fds_template_find tmplt 0 303;
          pen_ptr = fds_template_find tmplt 0 346
      in
        if \<not> scope_ptrs_ok False tmplt [ie_id_ptr, pen_ptr] then tmplt
        else if opts_has_required tmplt [(339, 0), (344, 0), (341, 0)]
          then add_opts_type FDS_OPTS_IE_TYPE tmplt
        else tmplt)"

definition opts_detector :: "fds_template \<Rightarrow> fds_template" where
  "opts_detector tmplt =
     opts_detect_ietype (opts_detect_flowkey (opts_detect_eproc (opts_detect_mproc tmplt)))"

section \<open>The features of a template and the parser\<close>

definition template_calc_features :: "fds_template \<Rightarrow> ret_code + fds_template" where
  "template_calc_features tmplt =
     (let t1 = template_fields_calc_flags tmplt;
          fields_total = unat (fields_cnt_total t1);
          (t2, data_len, field_offset) = fold calc_features_step [0..<fields_total] (t1, 0, 0)
      in
        if ucast max_rec_size < data_len then Inl FDS_ERR_FORMAT
        else
          let t3 = (if type_t t2 = FDS_TYPE_TEMPLATE_OPTS then opts_detector t2 else t2)
          in Inr (t3\<lparr>data_length := ucast data_len\<rparr>))"

text \<open>\<^verbatim>\<open>template_raw_copy\<close>; the flag says whether \<^verbatim>\<open>malloc\<close> succeeds.\<close>

definition template_raw_copy ::
  "bool \<Rightarrow> fds_template \<Rightarrow> u8 list \<Rightarrow> u16 \<Rightarrow> ret_code + fds_template" where
  "template_raw_copy malloc_ok tmplt ptr len =
     (if \<not> malloc_ok then Inl FDS_ERR_NOMEM
      else Inr (tmplt\<lparr>raw := take (unat len) ptr\<rparr>))"

text \<open>
  \<^verbatim>\<open>fds_template_parse\<close>. The arguments \<open>len\<close> and \<open>tmplt\<close> are what the two output
  parameters point at when the function is called, the result is the return code and what they
  point at when it returns. \<^verbatim>\<open>fds_template_destroy\<close> on the error paths frees the new
  template, which no result refers to.
\<close>

definition fds_template_parse ::
  "bool \<Rightarrow> bool \<Rightarrow> fds_template_type \<Rightarrow> u8 list \<Rightarrow> u16 \<Rightarrow> fds_template option
     \<Rightarrow> ret_code \<times> u16 \<times> fds_template option" where
  "fds_template_parse calloc_ok malloc_ok type ptr len tmplt =
     (case template_parse_header calloc_ok type ptr len of
        Inl ret_code \<Rightarrow> (ret_code, len, tmplt)
      | Inr (template, len_header) \<Rightarrow>
          if fields_cnt_total template = 0 then
            (case template_raw_copy malloc_ok template ptr len_header of
               Inl ret_code \<Rightarrow> (ret_code, len, tmplt)
             | Inr template1 \<Rightarrow> (FDS_OK, len_header, Some template1))
          else
            (case template_parse_fields template ptr (unat len_header) (len - len_header) of
               Inl ret_code \<Rightarrow> (ret_code, len, tmplt)
             | Inr (template1, len_fields) \<Rightarrow>
                 let len_real = len_header + len_fields in
                 (case template_raw_copy malloc_ok template1 ptr len_real of
                    Inl ret_code \<Rightarrow> (ret_code, len, tmplt)
                  | Inr template2 \<Rightarrow>
                      (case template_calc_features template2 of
                         Inl ret_code \<Rightarrow> (ret_code, len, tmplt)
                       | Inr template3 \<Rightarrow> (FDS_OK, len_real, Some template3)))))"

text \<open>
  \<^verbatim>\<open>fds_template_copy\<close>: both \<^verbatim>\<open>malloc\<close> calls must succeed; the copy has the members
  of the original and its own copy of the raw octets.
\<close>

definition fds_template_copy :: "bool \<Rightarrow> bool \<Rightarrow> fds_template \<Rightarrow> fds_template option" where
  "fds_template_copy main_ok raw_ok tmplt =
     (if \<not> main_ok \<or> \<not> raw_ok then None
      else Some (tmplt\<lparr>raw := take (length (raw tmplt)) (raw tmplt)\<rparr>))"

section \<open>Binding of the element definitions\<close>

definition is_structured :: "fds_iemgr_elem \<Rightarrow> bool" where
  "is_structured elem =
     (case data_type elem of
        FDS_ET_BASIC_LIST \<Rightarrow> True
      | FDS_ET_SUB_TEMPLATE_LIST \<Rightarrow> True
      | FDS_ET_SUB_TEMPLATE_MULTILIST \<Rightarrow> True
      | FDS_ET_OTHER _ \<Rightarrow> False)"

text \<open>
  \<^verbatim>\<open>strncasecmp(s1, s2, n) == 0\<close> on C strings: the first \<open>n\<close> characters agree once
  the ASCII upper-case letters are lowered.
\<close>

definition ascii_tolower :: "char \<Rightarrow> char" where
  "ascii_tolower c =
     (let n = (of_char c :: nat) in if 65 \<le> n \<and> n \<le> 90 then char_of (n + 32) else c)"

definition strncasecmp_eq :: "string \<Rightarrow> string \<Rightarrow> nat \<Rightarrow> bool" where
  "strncasecmp_eq s1 s2 n \<longleftrightarrow> map ascii_tolower (take n s1) = map ascii_tolower (take n s2)"

definition biflags :: "tfield_feature set" where
  "biflags = {FDS_TFIELD_BKEY_SRC, FDS_TFIELD_BKEY_DST, FDS_TFIEDL_BKEY_COM}"

text \<open>
  One iteration of the loop of \<^verbatim>\<open>template_ies_biflow\<close>. A failed \<^verbatim>\<open>assert\<close> is the
  result \<open>None\<close>.
\<close>

definition biflow_step :: "nat \<Rightarrow> fds_template \<Rightarrow> fds_template option" where
  "biflow_step i tmplt =
     (let tfield = fields_t tmplt ! i in
      if flags_f tfield \<inter> biflags \<noteq> {} then None
      else
        let skip =
          (case def_f tfield of
             None \<Rightarrow> Some False
           | Some d \<Rightarrow>
               if is_reverse d then
                 (if FDS_TFIELD_REVERSE \<in> flags_f tfield then Some True else None)
               else
                 (case reverse_elem d of
                    None \<Rightarrow> Some False
                  | Some (pen, rid) \<Rightarrow> Some (fds_template_cfind tmplt pen rid \<noteq> None)))
        in
          case skip of
            None \<Rightarrow> None
          | Some True \<Rightarrow> Some tmplt
          | Some False \<Rightarrow>
              if FDS_TFIELD_REVERSE \<in> flags_f tfield then None
              else
                let f1 = add_flag FDS_TFIEDL_BKEY_COM tfield;
                    f2 =
                      (case def_f tfield of
                         None \<Rightarrow> f1
                       | Some d \<Rightarrow>
                           (case name d of
                              None \<Rightarrow> f1
                            | Some nm \<Rightarrow>
                                if strncasecmp_eq nm ''source'' 6
                                  then add_flag FDS_TFIELD_BKEY_SRC f1
                                else if strncasecmp_eq nm ''destination'' 11
                                  then add_flag FDS_TFIELD_BKEY_DST f1
                                else f1))
                in Some (tmplt\<lparr>fields_t := (fields_t tmplt)[i := f2]\<rparr>))"

definition template_ies_biflow :: "fds_template \<Rightarrow> fds_template option" where
  "template_ies_biflow tmplt =
     (if FDS_TEMPLATE_HAS_REVERSE \<notin> flags_t tmplt then None
      else fold (\<lambda>i s. Option.bind s (biflow_step i))
             [0..<unat (fields_cnt_total tmplt)] (Some tmplt))"

text \<open>
  The lookup of \<^verbatim>\<open>fds_template_ies_define\<close>:
  \<^verbatim>\<open>(!iemgr) ? NULL : fds_iemgr_elem_find_id(iemgr, en, id)\<close>.
\<close>

definition elem_find :: "fds_iemgr_t option \<Rightarrow> u32 \<Rightarrow> u16 \<Rightarrow> fds_iemgr_elem option" where
  "elem_find iemgr e d = (case iemgr of None \<Rightarrow> None | Some m \<Rightarrow> m e d)"

text \<open>
  One iteration of the loop of \<^verbatim>\<open>fds_template_ies_define\<close>; the state is the template with
  \<^verbatim>\<open>has_reverse\<close> and \<^verbatim>\<open>has_struct\<close>. The dictionary is \<open>None\<close> for a NULL manager.
\<close>

definition ies_define_step ::
  "fds_iemgr_t option \<Rightarrow> bool \<Rightarrow> nat \<Rightarrow> fds_template \<times> bool \<times> bool
     \<Rightarrow> fds_template \<times> bool \<times> bool" where
  "ies_define_step iemgr preserve i s =
     (case s of (tmplt, has_reverse, has_struct) \<Rightarrow>
        let fs = fields_t tmplt;
            f1 = (fs ! i)\<lparr>flags_f := flags_f (fs ! i) - biflags\<rparr>
        in
          if preserve \<and> def_f f1 \<noteq> None then
            (tmplt\<lparr>fields_t := fs[i := f1]\<rparr>,
             if FDS_TFIELD_REVERSE \<in> flags_f f1 then True else has_reverse,
             if FDS_TFIELD_STRUCTURED \<in> flags_f f1 then True else has_struct)
          else
            let f2 = f1\<lparr>flags_f := flags_f f1 - {FDS_TFIELD_REVERSE, FDS_TFIELD_STRUCTURED}\<rparr>;
                def_ptr = elem_find iemgr (en f2) (id_f f2)
            in
              (case def_ptr of
                 None \<Rightarrow>
                   (tmplt\<lparr>fields_t := fs[i := f2\<lparr>def_f := None\<rparr>]\<rparr>, has_reverse, has_struct)
               | Some d \<Rightarrow>
                   let f3 = f2\<lparr>def_f := Some d\<rparr>;
                       f4 = (if is_reverse d then add_flag FDS_TFIELD_REVERSE f3 else f3);
                       has_reverse1 = (if is_reverse d then True else has_reverse);
                       f5 = (if is_structured d then add_flag FDS_TFIELD_STRUCTURED f4 else f4);
                       has_struct1 = (if is_structured d then True else has_struct)
                   in (tmplt\<lparr>fields_t := fs[i := f5]\<rparr>, has_reverse1, has_struct1)))"

text \<open>
  The block of \<^verbatim>\<open>fds_template_ies_define\<close> that adds and removes the template flags
  HAS_REVERSE and HAS_STRUCT.
\<close>

definition ies_template_flags :: "bool \<Rightarrow> bool \<Rightarrow> fds_template \<Rightarrow> fds_template" where
  "ies_template_flags has_reverse has_struct tmplt =
     (let t2 = (if has_reverse \<or> has_struct then
                  let set_mask = (if has_reverse then {FDS_TEMPLATE_HAS_REVERSE} else {})
                                 \<union> (if has_struct then {FDS_TEMPLATE_HAS_STRUCT} else {})
                  in tmplt\<lparr>flags_t := flags_t tmplt \<union> set_mask\<rparr>
                else tmplt)
      in if \<not> has_reverse \<or> \<not> has_struct then
           let clear_mask = (if \<not> has_reverse then {FDS_TEMPLATE_HAS_REVERSE} else {})
                            \<union> (if \<not> has_struct then {FDS_TEMPLATE_HAS_STRUCT} else {})
           in t2\<lparr>flags_t := flags_t t2 - clear_mask\<rparr>
         else t2)"

text \<open>
  \<^verbatim>\<open>fds_template_ies_define\<close>; \<open>None\<close> is a failed \<^verbatim>\<open>assert\<close> of
  \<^verbatim>\<open>template_ies_biflow\<close>.
\<close>

definition fds_template_ies_define ::
  "fds_template \<Rightarrow> fds_iemgr_t option \<Rightarrow> bool \<Rightarrow> fds_template option" where
  "fds_template_ies_define tmplt iemgr preserve =
     (if Option.is_none iemgr \<and> preserve then Some tmplt
      else
        let (t1, has_reverse, has_struct) =
              fold (ies_define_step iemgr preserve) [0..<unat (fields_cnt_total tmplt)]
                (tmplt, False, False);
            t3 = ies_template_flags has_reverse has_struct t1
        in if has_reverse then template_ies_biflow t3 else Some t3)"

section \<open>Flow keys\<close>

text \<open>
  The loop that counts the bits up to the highest one set, shared by
  \<^verbatim>\<open>fds_template_flowkey_applicable\<close> and \<^verbatim>\<open>fds_template_flowkey_cmp\<close>. The counter
  never exceeds 64.
\<close>

function bit_highest_loop :: "u64 \<Rightarrow> nat \<Rightarrow> nat" where
  "bit_highest_loop key_cpy bit_highest =
     (if key_cpy \<noteq> 0 then bit_highest_loop (drop_bit 1 key_cpy) (bit_highest + 1)
      else bit_highest)"
  by pat_completeness auto
termination
proof (relation "measure (\<lambda>(key_cpy, bit_highest). unat key_cpy)")
  show "wf (measure (\<lambda>(key_cpy :: u64, bit_highest :: nat). unat key_cpy))"
    by simp
next
  fix key_cpy :: u64 and bit_highest :: nat
  assume nz: "key_cpy \<noteq> 0"
  then have "0 < unat key_cpy"
    by (simp add: unat_gt_0)
  then have "unat key_cpy div 2 < unat key_cpy"
    by simp
  then have "unat (drop_bit 1 key_cpy) < unat key_cpy"
    by (simp add: drop_bit_eq_div unat_div)
  then show "((drop_bit 1 key_cpy, bit_highest + 1), key_cpy, bit_highest)
      \<in> measure (\<lambda>(key_cpy, bit_highest). unat key_cpy)"
    by simp
qed

declare bit_highest_loop.simps [simp del]

definition fds_template_flowkey_applicable :: "fds_template \<Rightarrow> u64 \<Rightarrow> ret_code" where
  "fds_template_flowkey_applicable tmplt flowkey =
     (let bit_highest = bit_highest_loop flowkey 0;
          fields_cnt = unat (fields_cnt_total tmplt)
      in if bit_highest > fields_cnt then FDS_ERR_FORMAT else FDS_OK)"

definition flowkey_define_step :: "nat \<Rightarrow> fds_template \<times> u64 \<Rightarrow> fds_template \<times> u64" where
  "flowkey_define_step i s =
     (case s of (tmplt, flowkey) \<Rightarrow>
        let fs = fields_t tmplt;
            f = (if flowkey AND 1 \<noteq> 0 then add_flag FDS_TFIELD_FLOW_KEY (fs ! i)
                 else del_flag FDS_TFIELD_FLOW_KEY (fs ! i))
        in (tmplt\<lparr>fields_t := fs[i := f]\<rparr>, drop_bit 1 flowkey))"

text \<open>\<^verbatim>\<open>fds_template_flowkey_define\<close>: the return code and the template afterwards.\<close>

definition fds_template_flowkey_define :: "fds_template \<Rightarrow> u64 \<Rightarrow> ret_code \<times> fds_template" where
  "fds_template_flowkey_define tmplt flowkey =
     (let ret_code = fds_template_flowkey_applicable tmplt flowkey in
      if ret_code \<noteq> FDS_OK then (ret_code, tmplt)
      else
        let t1 = (if flowkey \<noteq> 0
                  then tmplt\<lparr>flags_t := insert FDS_TEMPLATE_HAS_FKEY (flags_t tmplt)\<rparr>
                  else tmplt\<lparr>flags_t := flags_t tmplt - {FDS_TEMPLATE_HAS_FKEY}\<rparr>);
            (t2, flowkey1) = fold flowkey_define_step [0..<unat (fields_cnt_total t1)] (t1, flowkey)
        in (FDS_OK, t2))"

function flowkey_cmp_loop :: "fds_tfield list \<Rightarrow> nat \<Rightarrow> nat \<Rightarrow> u64 \<Rightarrow> int" where
  "flowkey_cmp_loop fs fields_cnt i flowkey =
     (if i < fields_cnt then
        (let value_exp = (flowkey AND 1 \<noteq> 0);
             value_real = (FDS_TFIELD_FLOW_KEY \<in> flags_f (fs ! i))
         in if value_exp \<noteq> value_real then 1
            else flowkey_cmp_loop fs fields_cnt (i + 1) (drop_bit 1 flowkey))
      else 0)"
  by pat_completeness auto
termination
  by (relation "measure (\<lambda>(fs, fields_cnt, i, flowkey). fields_cnt - i)") auto

declare flowkey_cmp_loop.simps [simp del]

definition fds_template_flowkey_cmp :: "fds_template \<Rightarrow> u64 \<Rightarrow> int" where
  "fds_template_flowkey_cmp tmplt flowkey =
     (let value_exp = (flowkey \<noteq> 0);
          value_real = (FDS_TEMPLATE_HAS_FKEY \<in> flags_t tmplt)
      in
        if value_exp = False \<and> value_real = False then 0
        else if value_exp \<noteq> value_real then 1
        else
          let bit_highest = bit_highest_loop flowkey 0;
              fields_cnt = unat (fields_cnt_total tmplt)
          in
            if bit_highest > fields_cnt then 1
            else flowkey_cmp_loop (fields_t tmplt) fields_cnt 0 flowkey)"

text \<open>
  What the loop of \<^verbatim>\<open>fds_template_flowkey_define\<close> does to field \<open>i\<close> for the key
  \<open>k\<close>.
\<close>

definition set_flow_key :: "u64 \<Rightarrow> nat \<Rightarrow> fds_tfield \<Rightarrow> fds_tfield" where
  "set_flow_key k i f =
     (if bit k i then add_flag FDS_TFIELD_FLOW_KEY f else del_flag FDS_TFIELD_FLOW_KEY f)"

text \<open>The template of the record \<^verbatim>\<open>01 00 00 02 00 08 00 04 00 0C 00 04\<close>.\<close>

definition ex_t :: fds_template where
  "ex_t = \<lparr>type_t = FDS_TYPE_TEMPLATE, opts_types = {}, id_t = 256, flags_t = {},
      data_length = 8, raw = [1, 0, 0, 2, 0, 8, 0, 4, 0, 12, 0, 4],
      fields_cnt_total = 2, fields_cnt_scope = 0,
      fields_t =
        [\<lparr>id_f = 8, en = 0, length_f = 4, offset = 0,
            flags_f = {FDS_TFIELD_LAST_IE}, def_f = None\<rparr>,
         \<lparr>id_f = 12, en = 0, length_f = 4, offset = 4,
            flags_f = {FDS_TFIELD_LAST_IE}, def_f = None\<rparr>]\<rparr>"

text \<open>The Information Element of a field: its id and its enterprise number.\<close>

definition key_f :: "fds_tfield \<Rightarrow> u16 \<times> u32" where
  "key_f f = (id_f f, en f)"

text \<open>
  The invariant of the outer loop of \<^verbatim>\<open>template_fields_calc_flags\<close> over the list
  \<open>K\<close> of the elements of the fields, when the fields from \<open>k\<close> on have been visited:
  \<open>later_k K j\<close> says that the element of field \<open>j\<close> occurs again behind it,
  \<open>eadj_k K k j\<close> that a visited field before \<open>j\<close> has the element of \<open>j\<close> and no
  field between the two has it.
\<close>

definition later_k :: "'k list \<Rightarrow> nat \<Rightarrow> bool" where
  "later_k K j \<longleftrightarrow> (\<exists>x. j < x \<and> x < length K \<and> K ! x = K ! j)"

definition eadj_k :: "'k list \<Rightarrow> nat \<Rightarrow> nat \<Rightarrow> bool" where
  "eadj_k K k j \<longleftrightarrow>
     (\<exists>j'. k \<le> j' \<and> j' < j \<and> K ! j' = K ! j \<and> (\<forall>y. j' < y \<and> y < j \<longrightarrow> K ! y \<noteq> K ! j))"

definition flags_inv :: "(u16 \<times> u32) list \<Rightarrow> nat \<Rightarrow> fds_tfield list \<Rightarrow> bool" where
  "flags_inv K k fs \<longleftrightarrow>
     length fs = length K
     \<and> (\<forall>j. j < k \<and> j < length K \<longrightarrow>
            FDS_TFIELD_LAST_IE \<notin> flags_f (fs ! j) \<and> FDS_TFIELD_MULTI_IE \<notin> flags_f (fs ! j))
     \<and> (\<forall>j. k \<le> j \<and> j < length K \<longrightarrow>
            (FDS_TFIELD_LAST_IE \<in> flags_f (fs ! j) \<longleftrightarrow> \<not> later_k K j)
            \<and> (FDS_TFIELD_MULTI_IE \<in> flags_f (fs ! j) \<longleftrightarrow> later_k K j \<or> eadj_k K k j))"

definition hash_inv :: "(u16 \<times> u32) list \<Rightarrow> nat \<Rightarrow> u64 \<Rightarrow> bool" where
  "hash_inv K k hash \<longleftrightarrow>
     (\<forall>b<64. bit hash b \<longleftrightarrow> (\<exists>j. k \<le> j \<and> j < length K \<and> unat (fst (K ! j) mod 64) = b))"

text \<open>
  What the loops that only add flags leave of a field list: the fields keep every member but
  the flags, which may have gained flags of \<open>S\<close>.
\<close>

definition flag_ext :: "tfield_feature set \<Rightarrow> fds_tfield list \<Rightarrow> fds_tfield list \<Rightarrow> bool" where
  "flag_ext S fs r \<longleftrightarrow>
     length r = length fs
     \<and> (\<forall>j<length fs. \<exists>A. A \<subseteq> S \<and> r ! j = (fs ! j)\<lparr>flags_f := flags_f (fs ! j) \<union> A\<rparr>)"

text \<open>
  The locals of the second loop of \<^verbatim>\<open>template_calc_features\<close> after the fields \<open>fs\<close>:
  \<^verbatim>\<open>field_offset\<close> and \<^verbatim>\<open>data_len\<close>.
\<close>

definition next_offset :: "fds_tfield \<Rightarrow> u16 \<Rightarrow> u16" where
  "next_offset f off =
     (if length_f f = IPFIX_VAR_IE_LENGTH then IPFIX_VAR_IE_LENGTH
      else if off \<noteq> IPFIX_VAR_IE_LENGTH then off + length_f f else off)"

definition offset_cursor :: "fds_tfield list \<Rightarrow> u16" where
  "offset_cursor fs = fold next_offset fs 0"

definition next_data_len :: "fds_tfield \<Rightarrow> u32 \<Rightarrow> u32" where
  "next_data_len f d =
     (if length_f f = IPFIX_VAR_IE_LENGTH then d + 1 else d + ucast (length_f f))"

definition data_len_cursor :: "fds_tfield list \<Rightarrow> u32" where
  "data_len_cursor fs = fold next_data_len fs 0"

text \<open>
  The minimal length of a data record in octets: a field of variable length counts 1, any other
  field its length.
\<close>

definition field_data_len :: "fds_tfield \<Rightarrow> nat" where
  "field_data_len f = (if length_f f = 65535 then 1 else unat (length_f f))"

definition min_data_len :: "fds_tfield list \<Rightarrow> nat" where
  "min_data_len fs = sum_list (map field_data_len fs)"

text \<open>
  What \<^verbatim>\<open>fds_template_parse\<close> hands to \<^verbatim>\<open>template_calc_features\<close>: as many fields
  as the field count says, none of them with a flag or a definition, and a scope count within
  the field count.
\<close>

definition pre_features :: "fds_template \<Rightarrow> bool" where
  "pre_features t \<longleftrightarrow>
     length (fields_t t) = unat (fields_cnt_total t)
     \<and> unat (fields_cnt_scope t) \<le> unat (fields_cnt_total t)
     \<and> (\<forall>j<length (fields_t t). flags_f (fields_t t ! j) = {} \<and> def_f (fields_t t ! j) = None)
     \<and> flags_t t = {} \<and> opts_types t = {}"

text \<open>
  What \<^verbatim>\<open>template_parse_fields\<close> leaves of a field list: the flags, the definition and
  the offset of every field.
\<close>

definition same_frame :: "fds_tfield list \<Rightarrow> fds_tfield list \<Rightarrow> bool" where
  "same_frame a b \<longleftrightarrow>
     length b = length a
     \<and> (\<forall>j<length a. flags_f (b ! j) = flags_f (a ! j)
           \<and> def_f (b ! j) = def_f (a ! j) \<and> offset (b ! j) = offset (a ! j))"

text \<open>
  Field \<open>i\<close> of the list has the Information Element (the id and the enterprise number) of a
  field behind it, or of any other field.
\<close>

definition later_same :: "fds_tfield list \<Rightarrow> nat \<Rightarrow> bool" where
  "later_same fs i \<longleftrightarrow>
     (\<exists>j\<in>{i + 1..<length fs}. id_f (fs ! j) = id_f (fs ! i) \<and> en (fs ! j) = en (fs ! i))"

definition other_same :: "fds_tfield list \<Rightarrow> nat \<Rightarrow> bool" where
  "other_same fs i \<longleftrightarrow>
     (\<exists>j\<in>{0..<length fs}. j \<noteq> i \<and> id_f (fs ! j) = id_f (fs ! i) \<and> en (fs ! j) = en (fs ! i))"

text \<open>The fields with the Information Element of field \<open>i\<close> that carry the flag LAST_IE.\<close>

definition last_of :: "fds_tfield list \<Rightarrow> nat \<Rightarrow> nat list" where
  "last_of fs i =
     filter (\<lambda>j. id_f (fs ! j) = id_f (fs ! i) \<and> en (fs ! j) = en (fs ! i)
                 \<and> FDS_TFIELD_LAST_IE \<in> flags_f (fs ! j)) [0..<length fs]"

text \<open>
  A field of variable length stands before field \<open>i\<close>; the sum of the lengths of the fields
  before field \<open>i\<close>.
\<close>

definition var_before :: "fds_tfield list \<Rightarrow> nat \<Rightarrow> bool" where
  "var_before fs i \<longleftrightarrow> (\<exists>f\<in>set (take i fs). length_f f = 65535)"

definition fixed_sum :: "fds_tfield list \<Rightarrow> nat \<Rightarrow> nat" where
  "fixed_sum fs i = sum_list (map (\<lambda>f. unat (length_f f)) (take i fs))"

text \<open>The record of the scenario with a repeated element: ids 8, 12 and 8, followed by two
  octets that are not part of it.\<close>

definition ex_multi_raw :: "u8 list" where
  "ex_multi_raw = [1, 0, 0, 3, 0, 8, 0, 4, 0, 12, 0, 4, 0, 8, 0, 4, 9, 9]"

definition ex_multi :: fds_template where
  "ex_multi = \<lparr>type_t = FDS_TYPE_TEMPLATE, opts_types = {}, id_t = 256,
      flags_t = {FDS_TEMPLATE_HAS_MULTI_IE}, data_length = 12,
      raw = [1, 0, 0, 3, 0, 8, 0, 4, 0, 12, 0, 4, 0, 8, 0, 4],
      fields_cnt_total = 3, fields_cnt_scope = 0,
      fields_t =
        [\<lparr>id_f = 8, en = 0, length_f = 4, offset = 0,
            flags_f = {FDS_TFIELD_MULTI_IE}, def_f = None\<rparr>,
         \<lparr>id_f = 12, en = 0, length_f = 4, offset = 4,
            flags_f = {FDS_TFIELD_LAST_IE}, def_f = None\<rparr>,
         \<lparr>id_f = 8, en = 0, length_f = 4, offset = 8,
            flags_f = {FDS_TFIELD_MULTI_IE, FDS_TFIELD_LAST_IE}, def_f = None\<rparr>]\<rparr>"

text \<open>
  What one iteration of the loop of \<^verbatim>\<open>fds_template_ies_define\<close> makes of a field.
\<close>

definition ies_field :: "fds_iemgr_t option \<Rightarrow> bool \<Rightarrow> fds_tfield \<Rightarrow> fds_tfield" where
  "ies_field iemgr preserve f =
     (let f1 = f\<lparr>flags_f := flags_f f - biflags\<rparr> in
      if preserve \<and> def_f f1 \<noteq> None then f1
      else
        let f2 = f1\<lparr>flags_f := flags_f f1 - {FDS_TFIELD_REVERSE, FDS_TFIELD_STRUCTURED}\<rparr> in
        case elem_find iemgr (en f2) (id_f f2) of
          None \<Rightarrow> f2\<lparr>def_f := None\<rparr>
        | Some d \<Rightarrow>
            let f3 = f2\<lparr>def_f := Some d\<rparr>;
                f4 = (if is_reverse d then add_flag FDS_TFIELD_REVERSE f3 else f3)
            in if is_structured d then add_flag FDS_TFIELD_STRUCTURED f4 else f4)"

text \<open>The template flags after \<^verbatim>\<open>fds_template_ies_define\<close> has added and removed flags.\<close>

definition ies_flags :: "bool \<Rightarrow> bool \<Rightarrow> template_feature set \<Rightarrow> template_feature set" where
  "ies_flags has_reverse has_struct F =
     (F - {FDS_TEMPLATE_HAS_REVERSE, FDS_TEMPLATE_HAS_STRUCT})
       \<union> (if has_reverse then {FDS_TEMPLATE_HAS_REVERSE} else {})
       \<union> (if has_struct then {FDS_TEMPLATE_HAS_STRUCT} else {})"

text \<open>
  The template after the loop and the flag block of \<^verbatim>\<open>fds_template_ies_define\<close>, before
  the biflow flags are computed.
\<close>

definition ies_loop_result :: "fds_iemgr_t option \<Rightarrow> bool \<Rightarrow> fds_template \<Rightarrow> fds_template" where
  "ies_loop_result iemgr preserve t =
     (let fs1 = map (ies_field iemgr preserve) (fields_t t) in
      t\<lparr>fields_t := fs1,
        flags_t := ies_flags (\<exists>f\<in>set fs1. FDS_TFIELD_REVERSE \<in> flags_f f)
                     (\<exists>f\<in>set fs1. FDS_TFIELD_STRUCTURED \<in> flags_f f) (flags_t t)\<rparr>)"

text \<open>
  A dictionary with a forward element (0, 8) named after the source address and a reverse
  element (0, 12), and what \<^verbatim>\<open>fds_template_ies_define\<close> makes of \<open>ex_t\<close> with it.
\<close>

definition ex_iemgr :: fds_iemgr_t where
  "ex_iemgr e d =
     (if e = 0 \<and> d = 8 then
        Some \<lparr>data_type = FDS_ET_OTHER 0, is_reverse = False, reverse_elem = None,
              name = Some ''sourceIPv4Address''\<rparr>
      else if e = 0 \<and> d = 12 then
        Some \<lparr>data_type = FDS_ET_BASIC_LIST, is_reverse = True, reverse_elem = None,
              name = Some ''reverseList''\<rparr>
      else None)"

definition ex_t_defined :: fds_template where
  "ex_t_defined = \<lparr>type_t = FDS_TYPE_TEMPLATE, opts_types = {}, id_t = 256,
      flags_t = {FDS_TEMPLATE_HAS_REVERSE, FDS_TEMPLATE_HAS_STRUCT},
      data_length = 8, raw = [1, 0, 0, 2, 0, 8, 0, 4, 0, 12, 0, 4],
      fields_cnt_total = 2, fields_cnt_scope = 0,
      fields_t =
        [\<lparr>id_f = 8, en = 0, length_f = 4, offset = 0,
            flags_f = {FDS_TFIELD_LAST_IE, FDS_TFIEDL_BKEY_COM, FDS_TFIELD_BKEY_SRC},
            def_f = Some \<lparr>data_type = FDS_ET_OTHER 0, is_reverse = False, reverse_elem = None,
                          name = Some ''sourceIPv4Address''\<rparr>\<rparr>,
         \<lparr>id_f = 12, en = 0, length_f = 4, offset = 4,
            flags_f = {FDS_TFIELD_LAST_IE, FDS_TFIELD_REVERSE, FDS_TFIELD_STRUCTURED},
            def_f = Some \<lparr>data_type = FDS_ET_BASIC_LIST, is_reverse = True, reverse_elem = None,
                          name = Some ''reverseList''\<rparr>\<rparr>]\<rparr>"

text \<open>
  The invariant of the flow key flags: the template carries HAS_FKEY exactly if one of its
  fields carries FLOW_KEY.
\<close>

definition fkey_inv :: "fds_template \<Rightarrow> bool" where
  "fkey_inv t \<longleftrightarrow>
     (FDS_TEMPLATE_HAS_FKEY \<in> flags_t t
        \<longleftrightarrow> (\<exists>f\<in>set (fields_t t). FDS_TFIELD_FLOW_KEY \<in> flags_f f))"

text \<open>
  The templates that the functions of the interface produce: \<^verbatim>\<open>fds_template_parse\<close> makes
  one, \<^verbatim>\<open>fds_template_copy\<close>, \<^verbatim>\<open>fds_template_ies_define\<close> and
  \<^verbatim>\<open>fds_template_flowkey_define\<close> make one of one.
\<close>

inductive reachable :: "fds_template \<Rightarrow> bool" where
  parse: "fds_template_parse calloc_ok malloc_ok type ptr len tmplt = (FDS_OK, len', Some t)
            \<Longrightarrow> reachable t"
| copy: "reachable t \<Longrightarrow> fds_template_copy main_ok raw_ok t = Some t' \<Longrightarrow> reachable t'"
| ies_define: "reachable t \<Longrightarrow> fds_template_ies_define t iemgr preserve = Some t'
            \<Longrightarrow> reachable t'"
| flowkey_define: "reachable t \<Longrightarrow> fds_template_flowkey_define t flowkey = (ret_code, t')
            \<Longrightarrow> reachable t'"

text \<open>A template that breaks the invariant: no HAS_FKEY, but a field with FLOW_KEY.\<close>

definition ex_t_broken :: fds_template where
  "ex_t_broken = ex_t\<lparr>fields_t := map (add_flag FDS_TFIELD_FLOW_KEY) (fields_t ex_t)\<rparr>"

text \<open>
  The conditions of the claims on the Exporting Process Reliability Statistics template, read
  off the field list: an element of the list \<open>ds\<close> (enterprise number 0) whose first field in
  the template carries SCOPE and LAST_IE; a field with such an element that carries SCOPE and
  LAST_IE; a field behind the scope fields with the id \<open>d\<close> (enterprise number 0); the number
  of the fields behind the scope fields with one of the ids 322 to 325.
\<close>

definition scope_first :: "fds_template \<Rightarrow> u16 list \<Rightarrow> bool" where
  "scope_first t ds \<longleftrightarrow>
     (\<exists>d\<in>set ds.
        case List.find (\<lambda>f. id_f f = d \<and> en f = 0) (fields_t t) of
          None \<Rightarrow> False
        | Some f \<Rightarrow> FDS_TFIELD_SCOPE \<in> flags_f f \<and> FDS_TFIELD_LAST_IE \<in> flags_f f)"

definition scope_any :: "fds_template \<Rightarrow> u16 list \<Rightarrow> bool" where
  "scope_any t ds \<longleftrightarrow>
     (\<exists>f\<in>set (fields_t t). en f = 0 \<and> id_f f \<in> set ds
        \<and> FDS_TFIELD_SCOPE \<in> flags_f f \<and> FDS_TFIELD_LAST_IE \<in> flags_f f)"

definition nonscope_has :: "fds_template \<Rightarrow> u16 \<Rightarrow> bool" where
  "nonscope_has t d \<longleftrightarrow>
     (\<exists>f\<in>set (drop (unat (fields_cnt_scope t)) (fields_t t)). id_f f = d \<and> en f = 0)"

definition obs_time_count :: "fds_template \<Rightarrow> nat" where
  "obs_time_count t =
     length (filter (\<lambda>f. en f = 0 \<and> 322 \<le> id_f f \<and> id_f f \<le> 325)
               (drop (unat (fields_cnt_scope t)) (fields_t t)))"

text \<open>
  Two Options Template records with the non-scope fields 166, 167, 168, 322 and 323: the
  first with the scope fields 130 and 130, the second with the one scope field 130; and the
  templates parsed from them.
\<close>

definition ex_eproc_twice_raw :: "u8 list" where
  "ex_eproc_twice_raw =
     [1, 0, 0, 7, 0, 2, 0, 130, 0, 4, 0, 130, 0, 4, 0, 166, 0, 4, 0, 167, 0, 4,
      0, 168, 0, 4, 1, 66, 0, 4, 1, 67, 0, 4]"

definition ex_eproc_twice :: fds_template where
  "ex_eproc_twice =
     \<lparr>type_t = FDS_TYPE_TEMPLATE_OPTS, opts_types = {}, id_t = 256,
      flags_t = {FDS_TEMPLATE_HAS_MULTI_IE}, data_length = 28,
      raw = ex_eproc_twice_raw, fields_cnt_total = 7, fields_cnt_scope = 2,
      fields_t =
        [\<lparr>id_f = 130, en = 0, length_f = 4, offset = 0,
            flags_f = {FDS_TFIELD_MULTI_IE, FDS_TFIELD_SCOPE}, def_f = None\<rparr>,
         \<lparr>id_f = 130, en = 0, length_f = 4, offset = 4,
            flags_f = {FDS_TFIELD_MULTI_IE, FDS_TFIELD_LAST_IE, FDS_TFIELD_SCOPE},
            def_f = None\<rparr>,
         \<lparr>id_f = 166, en = 0, length_f = 4, offset = 8,
            flags_f = {FDS_TFIELD_LAST_IE}, def_f = None\<rparr>,
         \<lparr>id_f = 167, en = 0, length_f = 4, offset = 12,
            flags_f = {FDS_TFIELD_LAST_IE}, def_f = None\<rparr>,
         \<lparr>id_f = 168, en = 0, length_f = 4, offset = 16,
            flags_f = {FDS_TFIELD_LAST_IE}, def_f = None\<rparr>,
         \<lparr>id_f = 322, en = 0, length_f = 4, offset = 20,
            flags_f = {FDS_TFIELD_LAST_IE}, def_f = None\<rparr>,
         \<lparr>id_f = 323, en = 0, length_f = 4, offset = 24,
            flags_f = {FDS_TFIELD_LAST_IE}, def_f = None\<rparr>]\<rparr>"

definition ex_eproc_once_raw :: "u8 list" where
  "ex_eproc_once_raw =
     [1, 0, 0, 6, 0, 1, 0, 130, 0, 4, 0, 166, 0, 4, 0, 167, 0, 4,
      0, 168, 0, 4, 1, 66, 0, 4, 1, 67, 0, 4]"

definition ex_eproc_once :: fds_template where
  "ex_eproc_once =
     \<lparr>type_t = FDS_TYPE_TEMPLATE_OPTS, opts_types = {FDS_OPTS_EPROC_RELIABILITY_STAT},
      id_t = 256, flags_t = {}, data_length = 24,
      raw = ex_eproc_once_raw, fields_cnt_total = 6, fields_cnt_scope = 1,
      fields_t =
        [\<lparr>id_f = 130, en = 0, length_f = 4, offset = 0,
            flags_f = {FDS_TFIELD_LAST_IE, FDS_TFIELD_SCOPE}, def_f = None\<rparr>,
         \<lparr>id_f = 166, en = 0, length_f = 4, offset = 4,
            flags_f = {FDS_TFIELD_LAST_IE}, def_f = None\<rparr>,
         \<lparr>id_f = 167, en = 0, length_f = 4, offset = 8,
            flags_f = {FDS_TFIELD_LAST_IE}, def_f = None\<rparr>,
         \<lparr>id_f = 168, en = 0, length_f = 4, offset = 12,
            flags_f = {FDS_TFIELD_LAST_IE}, def_f = None\<rparr>,
         \<lparr>id_f = 322, en = 0, length_f = 4, offset = 16,
            flags_f = {FDS_TFIELD_LAST_IE}, def_f = None\<rparr>,
         \<lparr>id_f = 323, en = 0, length_f = 4, offset = 20,
            flags_f = {FDS_TFIELD_LAST_IE}, def_f = None\<rparr>]\<rparr>"

text \<open>
  The record of \<open>ex_multi_raw\<close> once more, followed by other octets and handed over with
  another length.
\<close>

definition ex_multi_raw2 :: "u8 list" where
  "ex_multi_raw2 = [1, 0, 0, 3, 0, 8, 0, 4, 0, 12, 0, 4, 0, 8, 0, 4, 255, 255, 255, 255, 7]"

section \<open>Properties\<close>

subsection \<open>Errors and withdrawals of the header\<close>

text \<open>
  C6. An Options Template record of declared length at least 6, with an id of at least 256, a
  field count other than 0 and a scope count that is 0 or exceeds the field count: the parser
  returns \<^verbatim>\<open>FDS_ERR_FORMAT\<close> and both output parameters keep what they held, so that no
  template is returned. The result does not depend on the allocator: nothing is allocated.
\<close>

theorem parse_bad_scope_format:
  assumes "6 \<le> len" and "unat len \<le> length ptr"
    and "256 \<le> ntohs_at ptr 0" and "ntohs_at ptr 2 \<noteq> 0"
    and "ntohs_at ptr 4 = 0 \<or> ntohs_at ptr 2 < ntohs_at ptr 4"
  shows "fds_template_parse calloc_ok malloc_ok FDS_TYPE_TEMPLATE_OPTS ptr len tmplt
           = (FDS_ERR_FORMAT, len, tmplt)"
proof -
  have l4: "\<not> len < 4" and l6: "\<not> len < 6"
    using assms(1) by (simp_all add: not_less, unat_arith)
  have idok: "\<not> ntohs_at ptr 0 < 256"
    using assms(3) by (simp add: not_less)
  have hdr: "template_parse_header calloc_ok FDS_TYPE_TEMPLATE_OPTS ptr len = Inl FDS_ERR_FORMAT"
    using l4 l6 idok assms(4,5)
    by (auto simp add: template_parse_header_def size_normal_def size_opts_def
          IPFIX_SET_MIN_DATA_SET_ID_def Let_def)
  show ?thesis
    by (simp add: fds_template_parse_def hdr)
qed

theorem parse_bad_scope_format_witness:
  "fds_template_parse True True FDS_TYPE_TEMPLATE_OPTS [3, 0, 0, 2, 0, 3] 6 None
     = (FDS_ERR_FORMAT, 6, None)"
  by (rule parse_bad_scope_format) (simp_all add: ntohs_at_def)

text \<open>
  C4. A record of declared length at least 4 whose first four octets hold an id of at least 256
  and the field count 0, parsed as either template type while the allocations succeed: the
  result is a template without fields and scope fields, and 4 octets are consumed. The
  template is given in full: it is made of the first four octets only, whatever follows them.
\<close>

theorem parse_withdrawal:
  assumes "4 \<le> len" and "unat len \<le> length ptr"
    and "256 \<le> ntohs_at ptr 0" and "ntohs_at ptr 2 = 0"
  shows "fds_template_parse True True type ptr len tmplt
           = (FDS_OK, 4,
              Some \<lparr>type_t = type, opts_types = {}, id_t = ntohs_at ptr 0, flags_t = {},
                    data_length = 0, raw = take 4 ptr, fields_cnt_total = 0,
                    fields_cnt_scope = 0, fields_t = []\<rparr>)"
proof -
  have l4: "\<not> len < 4"
    using assms(1) by (simp add: not_less)
  have idok: "\<not> ntohs_at ptr 0 < 256"
    using assms(3) by (simp add: not_less)
  have hdr: "template_parse_header True type ptr len =
      Inr (\<lparr>type_t = type, opts_types = {}, id_t = ntohs_at ptr 0, flags_t = {},
             data_length = 0, raw = [], fields_cnt_total = 0,
             fields_cnt_scope = 0, fields_t = []\<rparr>, 4)"
    using l4 idok assms(4)
    by (simp add: template_parse_header_def size_normal_def size_opts_def
          IPFIX_SET_MIN_DATA_SET_ID_def Let_def template_create_empty_def)
  show ?thesis
    by (simp add: fds_template_parse_def hdr template_raw_copy_def)
qed

theorem parse_withdrawal_witness:
  "fds_template_parse True True FDS_TYPE_TEMPLATE_OPTS [1, 0, 0, 0, 9, 9] 6 None
     = (FDS_OK, 4,
        Some \<lparr>type_t = FDS_TYPE_TEMPLATE_OPTS, opts_types = {}, id_t = 256, flags_t = {},
              data_length = 0, raw = [1, 0, 0, 0], fields_cnt_total = 0,
              fields_cnt_scope = 0, fields_t = []\<rparr>)"
  using parse_withdrawal [of 6 "[1, 0, 0, 0, 9, 9]" FDS_TYPE_TEMPLATE_OPTS None]
  by (simp add: ntohs_at_def)

subsection \<open>Flow keys\<close>

lemma and_one_neq_zero_iff: "(w AND 1 \<noteq> 0) \<longleftrightarrow> bit w 0" for w :: u64
  by (simp add: and_one_eq bit_0 odd_iff_mod_2_eq_one)

lemma bit_highest_loop_ge: "bit_highest \<le> bit_highest_loop key_cpy bit_highest"
proof (induction key_cpy bit_highest rule: bit_highest_loop.induct)
  case (1 key_cpy bit_highest)
  then show ?case
    by (subst bit_highest_loop.simps) (use 1 in auto)
qed

lemma bit_highest_loop_le_iff:
  "bit_highest_loop key_cpy bit_highest \<le> n + bit_highest \<longleftrightarrow> drop_bit n key_cpy = 0"
proof (induction key_cpy bit_highest arbitrary: n rule: bit_highest_loop.induct)
  case (1 key_cpy bit_highest)
  show ?case
  proof (cases "key_cpy = 0")
    case True
    then show ?thesis
      by (subst bit_highest_loop.simps) simp
  next
    case False
    note nz = this
    show ?thesis
    proof (cases n)
      case 0
      have "bit_highest + 1 \<le> bit_highest_loop (drop_bit 1 key_cpy) (bit_highest + 1)"
        by (rule bit_highest_loop_ge)
      with nz 0 show ?thesis
        by (simp add: bit_highest_loop.simps [of key_cpy bit_highest])
    next
      case (Suc m)
      have "bit_highest_loop (drop_bit 1 key_cpy) (bit_highest + 1) \<le> m + (bit_highest + 1)
              \<longleftrightarrow> drop_bit m (drop_bit 1 key_cpy) = 0"
        using "1.IH" [OF nz] .
      with nz Suc show ?thesis
        by (simp add: bit_highest_loop.simps [of key_cpy bit_highest])
    qed
  qed
qed

lemma drop_bit_eq_0_iff: "drop_bit n k = 0 \<longleftrightarrow> (\<forall>i. bit k i \<longrightarrow> i < n)" for k :: u64
proof
  assume z: "drop_bit n k = 0"
  show "\<forall>i. bit k i \<longrightarrow> i < n"
  proof (intro allI impI)
    fix i assume b: "bit k i"
    show "i < n"
    proof (rule ccontr)
      assume "\<not> i < n"
      then have "bit (drop_bit n k) (i - n)"
        using b by (simp add: bit_drop_bit_eq)
      with z show False by simp
    qed
  qed
next
  assume a: "\<forall>i. bit k i \<longrightarrow> i < n"
  show "drop_bit n k = 0"
  proof (rule bit_eqI)
    fix j
    have "\<not> bit k (n + j)" using a by fastforce
    then show "bit (drop_bit n k) j \<longleftrightarrow> bit (0 :: u64) j"
      by (simp add: bit_drop_bit_eq)
  qed
qed

lemma flowkey_applicable_iff:
  "fds_template_flowkey_applicable t k = FDS_OK
     \<longleftrightarrow> (\<forall>i. bit k i \<longrightarrow> i < unat (fields_cnt_total t))"
proof -
  have "bit_highest_loop k 0 \<le> unat (fields_cnt_total t)
          \<longleftrightarrow> (\<forall>i. bit k i \<longrightarrow> i < unat (fields_cnt_total t))"
    using bit_highest_loop_le_iff [of k 0 "unat (fields_cnt_total t)"]
    by (simp add: drop_bit_eq_0_iff)
  then show ?thesis
    by (auto simp add: fds_template_flowkey_applicable_def Let_def not_less [symmetric])
qed

lemma flowkey_define_fold:
  assumes "n \<le> length (fields_t t)"
  shows "\<exists>fs'. fold flowkey_define_step [0..<n] (t, k) = (t\<lparr>fields_t := fs'\<rparr>, drop_bit n k)
           \<and> length fs' = length (fields_t t)
           \<and> (\<forall>i<length (fields_t t).
                 fs' ! i = (if i < n then set_flow_key k i (fields_t t ! i) else fields_t t ! i))"
  using assms
proof (induction n)
  case 0
  show ?case
    by (rule exI [of _ "fields_t t"]) simp
next
  case (Suc n)
  then obtain fs' where
    f: "fold flowkey_define_step [0..<n] (t, k) = (t\<lparr>fields_t := fs'\<rparr>, drop_bit n k)"
    and l: "length fs' = length (fields_t t)"
    and e: "\<forall>i<length (fields_t t).
              fs' ! i = (if i < n then set_flow_key k i (fields_t t ! i) else fields_t t ! i)"
    by auto
  have n: "n < length (fields_t t)" using Suc.prems by simp
  have b: "(drop_bit n k AND 1 \<noteq> 0) \<longleftrightarrow> bit k n"
    by (simp add: and_one_neq_zero_iff bit_drop_bit_eq)
  have fn: "fs' ! n = fields_t t ! n" using e n by simp
  let ?fs = "fs'[n := set_flow_key k n (fields_t t ! n)]"
  have step: "fold flowkey_define_step [0..<Suc n] (t, k)
        = (t\<lparr>fields_t := ?fs\<rparr>, drop_bit (Suc n) k)"
    using b by (simp add: f flowkey_define_step_def Let_def set_flow_key_def fn)
  have "\<forall>i<length (fields_t t).
      ?fs ! i = (if i < Suc n then set_flow_key k i (fields_t t ! i) else fields_t t ! i)"
    using e l n by (auto simp add: nth_list_update less_Suc_eq)
  with step l show ?case
    by (intro exI [of _ ?fs]) simp
qed

lemma flowkey_cmp_loop_iff:
  assumes "fields_cnt \<le> length fs"
  shows "flowkey_cmp_loop fs fields_cnt i flowkey = 0
     \<longleftrightarrow> (\<forall>j. i \<le> j \<and> j < fields_cnt
            \<longrightarrow> (bit flowkey (j - i) \<longleftrightarrow> FDS_TFIELD_FLOW_KEY \<in> flags_f (fs ! j)))"
  using assms
proof (induction fs fields_cnt i flowkey rule: flowkey_cmp_loop.induct)
  case (1 fs fields_cnt i flowkey)
  show ?case
  proof (cases "i < fields_cnt")
    case False
    then have "flowkey_cmp_loop fs fields_cnt i flowkey = 0"
      by (subst flowkey_cmp_loop.simps) simp
    moreover have "\<forall>j. i \<le> j \<and> j < fields_cnt
            \<longrightarrow> (bit flowkey (j - i) \<longleftrightarrow> FDS_TFIELD_FLOW_KEY \<in> flags_f (fs ! j))"
      using False by auto
    ultimately show ?thesis by simp
  next
    case True
    note lt = this
    show ?thesis
    proof (cases "bit flowkey 0 \<longleftrightarrow> FDS_TFIELD_FLOW_KEY \<in> flags_f (fs ! i)")
      case False
      then have "flowkey_cmp_loop fs fields_cnt i flowkey = 1"
        using lt by (subst flowkey_cmp_loop.simps) (simp add: and_one_neq_zero_iff Let_def)
      moreover have "\<not> (\<forall>j. i \<le> j \<and> j < fields_cnt
            \<longrightarrow> (bit flowkey (j - i) \<longleftrightarrow> FDS_TFIELD_FLOW_KEY \<in> flags_f (fs ! j)))"
        using False lt by (intro notI) (drule spec [of _ i], simp)
      ultimately show ?thesis by simp
    next
      case True
      have ih: "flowkey_cmp_loop fs fields_cnt (i + 1) (drop_bit 1 flowkey) = 0
          \<longleftrightarrow> (\<forall>j. i + 1 \<le> j \<and> j < fields_cnt
            \<longrightarrow> (bit (drop_bit 1 flowkey) (j - (i + 1))
                  \<longleftrightarrow> FDS_TFIELD_FLOW_KEY \<in> flags_f (fs ! j)))"
        using "1.IH" [OF lt refl refl] True "1.prems"
        by (simp add: and_one_neq_zero_iff)
      have eq: "flowkey_cmp_loop fs fields_cnt i flowkey
                  = flowkey_cmp_loop fs fields_cnt (i + 1) (drop_bit 1 flowkey)"
        using lt True by (subst flowkey_cmp_loop.simps) (simp add: and_one_neq_zero_iff Let_def)
      have "(\<forall>j. i \<le> j \<and> j < fields_cnt
            \<longrightarrow> (bit flowkey (j - i) \<longleftrightarrow> FDS_TFIELD_FLOW_KEY \<in> flags_f (fs ! j)))
         \<longleftrightarrow> (\<forall>j. i + 1 \<le> j \<and> j < fields_cnt
            \<longrightarrow> (bit (drop_bit 1 flowkey) (j - (i + 1))
                  \<longleftrightarrow> FDS_TFIELD_FLOW_KEY \<in> flags_f (fs ! j)))" (is "?L \<longleftrightarrow> ?R")
      proof
        assume L: ?L
        show ?R
        proof (intro allI impI)
          fix j assume j: "i + 1 \<le> j \<and> j < fields_cnt"
          then have "Suc (j - (i + 1)) = j - i" by arith
          then show "bit (drop_bit 1 flowkey) (j - (i + 1))
                  \<longleftrightarrow> FDS_TFIELD_FLOW_KEY \<in> flags_f (fs ! j)"
            using L j by (simp add: bit_drop_bit_eq)
        qed
      next
        assume R: ?R
        show ?L
        proof (intro allI impI)
          fix j assume j: "i \<le> j \<and> j < fields_cnt"
          show "bit flowkey (j - i) \<longleftrightarrow> FDS_TFIELD_FLOW_KEY \<in> flags_f (fs ! j)"
          proof (cases "j = i")
            case True
            with \<open>bit flowkey 0 \<longleftrightarrow> FDS_TFIELD_FLOW_KEY \<in> flags_f (fs ! i)\<close>
            show ?thesis by simp
          next
            case False
            with j have j': "i + 1 \<le> j \<and> j < fields_cnt" by simp
            then have "j - i = Suc (j - (i + 1))" by arith
            then show ?thesis
              using R j' by (simp add: bit_drop_bit_eq)
          qed
        qed
      qed
      with ih eq show ?thesis by simp
    qed
  qed
qed

text \<open>
  C7. For a template \<open>t\<close> that holds as many fields as its field count says and a key \<open>k\<close>
  whose set bits all lie below the field count (so also for \<open>k = 0\<close>),
  \<^verbatim>\<open>fds_template_flowkey_define\<close> returns \<^verbatim>\<open>FDS_OK\<close> and
  \<^verbatim>\<open>fds_template_flowkey_cmp\<close> of the template it leaves and \<open>k\<close> is 0.
\<close>

theorem flowkey_define_cmp:
  assumes wf: "wf_template t"
    and hi: "\<forall>i. bit k i \<longrightarrow> i < unat (fields_cnt_total t)"
  shows "fst (fds_template_flowkey_define t k) = FDS_OK
         \<and> fds_template_flowkey_cmp (snd (fds_template_flowkey_define t k)) k = 0"
proof -
  let ?n = "unat (fields_cnt_total t)"
  have app: "fds_template_flowkey_applicable t k = FDS_OK"
    using hi by (simp add: flowkey_applicable_iff)
  define t1 where "t1 = (if k \<noteq> 0
                  then t\<lparr>flags_t := insert FDS_TEMPLATE_HAS_FKEY (flags_t t)\<rparr>
                  else t\<lparr>flags_t := flags_t t - {FDS_TEMPLATE_HAS_FKEY}\<rparr>)"
  have t1n: "unat (fields_cnt_total t1) = ?n" and t1f: "fields_t t1 = fields_t t"
    and t1k: "FDS_TEMPLATE_HAS_FKEY \<in> flags_t t1 \<longleftrightarrow> k \<noteq> 0"
    by (simp_all add: t1_def)
  have len: "?n \<le> length (fields_t t1)"
    using wf by (simp add: wf_template_def t1f)
  from flowkey_define_fold [OF len, of k] obtain fs' where
    f: "fold flowkey_define_step [0..<?n] (t1, k) = (t1\<lparr>fields_t := fs'\<rparr>, drop_bit ?n k)"
    and l: "length fs' = length (fields_t t1)"
    and e: "\<forall>i<length (fields_t t1).
              fs' ! i = (if i < ?n then set_flow_key k i (fields_t t1 ! i) else fields_t t1 ! i)"
    by blast
  have def: "fds_template_flowkey_define t k = (FDS_OK, t1\<lparr>fields_t := fs'\<rparr>)"
    using app f by (simp add: fds_template_flowkey_define_def Let_def t1_def [symmetric] t1n)
  have bh: "\<not> bit_highest_loop k 0 > ?n"
    using app by (simp add: fds_template_flowkey_applicable_def Let_def split: if_splits)
  have flags: "\<forall>j. 0 \<le> j \<and> j < ?n
        \<longrightarrow> (bit k (j - 0) \<longleftrightarrow> FDS_TFIELD_FLOW_KEY \<in> flags_f (fs' ! j))"
    using e len by (auto simp add: set_flow_key_def add_flag_def del_flag_def)
  have "flowkey_cmp_loop fs' ?n 0 k = 0"
    using flowkey_cmp_loop_iff [of ?n fs' 0 k] flags len l by simp
  then have "fds_template_flowkey_cmp (t1\<lparr>fields_t := fs'\<rparr>) k = 0"
    using bh t1k by (simp add: fds_template_flowkey_cmp_def Let_def t1n)
  with def show ?thesis by simp
qed

lemma bit2: "(\<forall>i. bit (2 :: u64) i \<longrightarrow> i < 2)"
  by (simp add: bit_numeral_Bit0_iff bit_1_iff) 

theorem flowkey_define_cmp_witness:
  "fst (fds_template_flowkey_define ex_t 2) = FDS_OK
         \<and> fds_template_flowkey_cmp (snd (fds_template_flowkey_define ex_t 2)) 2 = 0"
  by (rule flowkey_define_cmp) (simp_all add: ex_t_def wf_template_def bit2)

subsection \<open>The flags of the fields\<close>

lemma key_f_add_flag [simp]: "key_f (add_flag F f) = key_f f"
  by (simp add: key_f_def add_flag_def)

lemma key_f_neq_iff: "(id_f f \<noteq> id_f g \<or> en f \<noteq> en g) \<longleftrightarrow> key_f f \<noteq> key_f g"
  by (auto simp add: key_f_def)

lemma calc_flags_inner_none:
  assumes "\<forall>y. x \<le> y \<and> y < n \<longrightarrow> key_f (fs ! y) \<noteq> key_f (fs ! i)"
  shows "calc_flags_inner n i x fs = (fs, False)"
  using assms
proof (induction n i x fs rule: calc_flags_inner.induct)
  case (1 fields_total i x fs)
  show ?case
  proof (cases "x < fields_total")
    case False
    then show ?thesis by (subst calc_flags_inner.simps) simp
  next
    case True
    have ne: "key_f (fs ! i) \<noteq> key_f (fs ! x)"
      using "1.prems" True by (metis order_refl)
    then have c: "id_f (fs ! i) \<noteq> id_f (fs ! x) \<or> en (fs ! i) \<noteq> en (fs ! x)"
      by (auto simp add: key_f_def)
    have "calc_flags_inner fields_total i (x + 1) fs = (fs, False)"
      using "1.IH" [OF True c] "1.prems" by simp
    then show ?thesis
      using True c by (subst calc_flags_inner.simps) simp
  qed
qed

lemma calc_flags_inner_first:
  assumes "x \<le> m" and "m < n" and "key_f (fs ! m) = key_f (fs ! i)"
    and "\<forall>y. x \<le> y \<and> y < m \<longrightarrow> key_f (fs ! y) \<noteq> key_f (fs ! i)"
    and "i < x" and "n = length fs"
  shows "calc_flags_inner n i x fs
           = (fs[i := add_flag FDS_TFIELD_MULTI_IE (fs ! i),
                 m := add_flag FDS_TFIELD_MULTI_IE (fs ! m)], True)"
  using assms
proof (induction n i x fs rule: calc_flags_inner.induct)
  case (1 fields_total i x fs)
  have lt: "x < fields_total" using "1.prems" by simp
  show ?case
  proof (cases "x = m")
    case True
    have c: "\<not> (id_f (fs ! i) \<noteq> id_f (fs ! x) \<or> en (fs ! i) \<noteq> en (fs ! x))"
      using "1.prems"(3) True by (auto simp add: key_f_def)
    have "i \<noteq> m" using "1.prems" True by simp
    then show ?thesis
      using lt c True by (subst calc_flags_inner.simps) (simp add: Let_def)
  next
    case False
    then have xm: "x < m" using "1.prems"(1) by simp
    have ne: "key_f (fs ! i) \<noteq> key_f (fs ! x)"
      using "1.prems"(4) xm by (metis order_refl)
    then have c: "id_f (fs ! i) \<noteq> id_f (fs ! x) \<or> en (fs ! i) \<noteq> en (fs ! x)"
      by (auto simp add: key_f_def)
    have "calc_flags_inner fields_total i (x + 1) fs
           = (fs[i := add_flag FDS_TFIELD_MULTI_IE (fs ! i),
                 m := add_flag FDS_TFIELD_MULTI_IE (fs ! m)], True)"
      using "1.IH" [OF lt c] "1.prems" xm by simp
    then show ?thesis
      using lt c by (subst calc_flags_inner.simps) simp
  qed
qed

lemma flag_ext_refl: "flag_ext S fs fs"
  unfolding flag_ext_def
proof (intro conjI allI impI)
  fix j assume "j < length fs"
  show "\<exists>A. A \<subseteq> S \<and> fs ! j = (fs ! j)\<lparr>flags_f := flags_f (fs ! j) \<union> A\<rparr>"
    by (rule exI [of _ "{}"]) simp
qed simp

lemma flag_ext_trans:
  assumes "flag_ext S fs r" and "flag_ext S r q"
  shows "flag_ext S fs q"
  unfolding flag_ext_def
proof (intro conjI allI impI)
  show "length q = length fs"
    using assms by (simp add: flag_ext_def)
next
  fix j assume j: "j < length fs"
  then obtain A where A: "A \<subseteq> S" "r ! j = (fs ! j)\<lparr>flags_f := flags_f (fs ! j) \<union> A\<rparr>"
    using assms(1) unfolding flag_ext_def by blast
  from j have "j < length r" using assms(1) by (simp add: flag_ext_def)
  then obtain B where B: "B \<subseteq> S" "q ! j = (r ! j)\<lparr>flags_f := flags_f (r ! j) \<union> B\<rparr>"
    using assms(2) unfolding flag_ext_def by blast
  show "\<exists>C. C \<subseteq> S \<and> q ! j = (fs ! j)\<lparr>flags_f := flags_f (fs ! j) \<union> C\<rparr>"
    by (rule exI [of _ "A \<union> B"]) (use A B in \<open>simp add: Un_assoc\<close>)
qed

lemma flag_ext_update:
  assumes "F \<in> S"
  shows "flag_ext S fs (fs[i := add_flag F (fs ! i)])"
  unfolding flag_ext_def
proof (intro conjI allI impI)
  fix j assume j: "j < length fs"
  show "\<exists>A. A \<subseteq> S \<and> fs[i := add_flag F (fs ! i)] ! j = (fs ! j)\<lparr>flags_f := flags_f (fs ! j) \<union> A\<rparr>"
  proof (cases "i = j")
    case True
    show ?thesis
      by (rule exI [of _ "{F}"]) (use True j assms in \<open>simp add: add_flag_def\<close>)
  next
    case False
    show ?thesis
      by (rule exI [of _ "{}"]) (use False in simp)
  qed
qed simp

lemma flag_ext_nth:
  assumes "flag_ext S fs r" and "j < length fs"
  shows "id_f (r ! j) = id_f (fs ! j)" and "en (r ! j) = en (fs ! j)"
    and "length_f (r ! j) = length_f (fs ! j)" and "offset (r ! j) = offset (fs ! j)"
    and "def_f (r ! j) = def_f (fs ! j)" and "key_f (r ! j) = key_f (fs ! j)"
    and "flags_f (fs ! j) \<subseteq> flags_f (r ! j)" and "flags_f (r ! j) \<subseteq> flags_f (fs ! j) \<union> S"
proof -
  obtain A where A: "A \<subseteq> S" "r ! j = (fs ! j)\<lparr>flags_f := flags_f (fs ! j) \<union> A\<rparr>"
    using assms unfolding flag_ext_def by blast
  show "id_f (r ! j) = id_f (fs ! j)" and "en (r ! j) = en (fs ! j)"
    and "length_f (r ! j) = length_f (fs ! j)" and "offset (r ! j) = offset (fs ! j)"
    and "def_f (r ! j) = def_f (fs ! j)" and "key_f (r ! j) = key_f (fs ! j)"
    and "flags_f (fs ! j) \<subseteq> flags_f (r ! j)" and "flags_f (r ! j) \<subseteq> flags_f (fs ! j) \<union> S"
    using A by (auto simp add: key_f_def)
qed

lemma flag_ext_length: "flag_ext S fs r \<Longrightarrow> length r = length fs"
  by (simp add: flag_ext_def)

lemma flag_ext_keys:
  assumes "flag_ext S fs r"
  shows "map key_f r = map key_f fs"
  using assms flag_ext_nth(6) [OF assms]
  by (intro nth_equalityI) (simp_all add: flag_ext_def)

lemma eadj_k_Suc:
  assumes "i < j" and "\<not> (K ! i = K ! j \<and> (\<forall>y. i < y \<and> y < j \<longrightarrow> K ! y \<noteq> K ! j))"
  shows "eadj_k K i j \<longleftrightarrow> eadj_k K (Suc i) j"
proof
  assume "eadj_k K i j"
  then obtain j' where j': "i \<le> j'" "j' < j" "K ! j' = K ! j"
      "\<forall>y. j' < y \<and> y < j \<longrightarrow> K ! y \<noteq> K ! j"
    unfolding eadj_k_def by blast
  have "j' \<noteq> i" using j'(3,4) assms(2) by blast
  with j'(1) have "Suc i \<le> j'" by simp
  with j' show "eadj_k K (Suc i) j"
    unfolding eadj_k_def by blast
next
  assume "eadj_k K (Suc i) j"
  then obtain j' where j': "Suc i \<le> j'" "j' < j" "K ! j' = K ! j"
      "\<forall>y. j' < y \<and> y < j \<longrightarrow> K ! y \<noteq> K ! j"
    unfolding eadj_k_def by blast
  then have "i \<le> j'" by simp
  with j' show "eadj_k K i j"
    unfolding eadj_k_def by blast
qed

lemma eadj_k_self: "\<not> eadj_k K i i"
  by (simp add: eadj_k_def)

lemma flags_inv_step_last:
  assumes inv: "flags_inv K (Suc i) fs" and i: "i < length K" and nl: "\<not> later_k K i"
  shows "flags_inv K i (fs[i := add_flag FDS_TFIELD_LAST_IE (fs ! i)])"
proof -
  let ?fs = "fs[i := add_flag FDS_TFIELD_LAST_IE (fs ! i)]"
  have len: "length fs = length K" using inv by (simp add: flags_inv_def)
  have old: "\<And>j. j < Suc i \<Longrightarrow> j < length K \<Longrightarrow>
       FDS_TFIELD_LAST_IE \<notin> flags_f (fs ! j) \<and> FDS_TFIELD_MULTI_IE \<notin> flags_f (fs ! j)"
    using inv unfolding flags_inv_def by blast
  have new: "\<And>j. Suc i \<le> j \<Longrightarrow> j < length K \<Longrightarrow>
       (FDS_TFIELD_LAST_IE \<in> flags_f (fs ! j) \<longleftrightarrow> \<not> later_k K j)
       \<and> (FDS_TFIELD_MULTI_IE \<in> flags_f (fs ! j) \<longleftrightarrow> later_k K j \<or> eadj_k K (Suc i) j)"
    using inv unfolding flags_inv_def by blast
  show ?thesis
    unfolding flags_inv_def
  proof (intro conjI allI impI)
    show "length ?fs = length K" using len by simp
  next
    fix j assume "j < i \<and> j < length K"
    then show "FDS_TFIELD_LAST_IE \<notin> flags_f (?fs ! j)"
      and "FDS_TFIELD_MULTI_IE \<notin> flags_f (?fs ! j)"
      using old [of j] by simp_all
  next
    fix j assume j: "i \<le> j \<and> j < length K"
    show "FDS_TFIELD_LAST_IE \<in> flags_f (?fs ! j) \<longleftrightarrow> \<not> later_k K j"
    proof (cases "j = i")
      case True
      then show ?thesis using nl i len by (simp add: add_flag_def)
    next
      case False
      then show ?thesis using new [of j] j by simp
    qed
    show "FDS_TFIELD_MULTI_IE \<in> flags_f (?fs ! j) \<longleftrightarrow> later_k K j \<or> eadj_k K i j"
    proof (cases "j = i")
      case True
      then show ?thesis
        using nl i len old [of i] by (simp add: add_flag_def eadj_k_self)
    next
      case False
      then have ij: "i < j" using j by simp
      have "K ! i \<noteq> K ! j"
        using nl ij j unfolding later_k_def by metis
      then have "eadj_k K i j \<longleftrightarrow> eadj_k K (Suc i) j"
        using ij by (intro eadj_k_Suc) simp_all
      then show ?thesis using new [of j] j False by simp
    qed
  qed
qed

lemma flags_inv_step_multi:
  assumes inv: "flags_inv K (Suc i) fs" and im: "i < m" and m: "m < length K"
    and eq: "K ! m = K ! i" and first: "\<forall>y. i < y \<and> y < m \<longrightarrow> K ! y \<noteq> K ! i"
  shows "flags_inv K i (fs[i := add_flag FDS_TFIELD_MULTI_IE (fs ! i),
                           m := add_flag FDS_TFIELD_MULTI_IE (fs ! m)])"
proof -
  let ?fs = "fs[i := add_flag FDS_TFIELD_MULTI_IE (fs ! i),
                m := add_flag FDS_TFIELD_MULTI_IE (fs ! m)]"
  have len: "length fs = length K" using inv by (simp add: flags_inv_def)
  have old: "\<And>j. j < Suc i \<Longrightarrow> j < length K \<Longrightarrow>
       FDS_TFIELD_LAST_IE \<notin> flags_f (fs ! j) \<and> FDS_TFIELD_MULTI_IE \<notin> flags_f (fs ! j)"
    using inv unfolding flags_inv_def by blast
  have new: "\<And>j. Suc i \<le> j \<Longrightarrow> j < length K \<Longrightarrow>
       (FDS_TFIELD_LAST_IE \<in> flags_f (fs ! j) \<longleftrightarrow> \<not> later_k K j)
       \<and> (FDS_TFIELD_MULTI_IE \<in> flags_f (fs ! j) \<longleftrightarrow> later_k K j \<or> eadj_k K (Suc i) j)"
    using inv unfolding flags_inv_def by blast
  have li: "later_k K i"
    unfolding later_k_def using im m eq by blast
  have nth: "\<And>j. j < length K \<Longrightarrow> ?fs ! j =
      (if j = i \<or> j = m then add_flag FDS_TFIELD_MULTI_IE (fs ! j) else fs ! j)"
    using len im by (simp add: nth_list_update)
  show ?thesis
    unfolding flags_inv_def
  proof (intro conjI allI impI)
    show "length ?fs = length K" using len by simp
  next
    fix j assume j: "j < i \<and> j < length K"
    then have "?fs ! j = fs ! j" using nth [of j] im by simp
    then show "FDS_TFIELD_LAST_IE \<notin> flags_f (?fs ! j)"
      and "FDS_TFIELD_MULTI_IE \<notin> flags_f (?fs ! j)"
      using old [of j] j by simp_all
  next
    fix j assume j: "i \<le> j \<and> j < length K"
    consider (i) "j = i" | (m) "j = m" | (other) "i < j" "j \<noteq> m"
      using j by fastforce
    then show "FDS_TFIELD_LAST_IE \<in> flags_f (?fs ! j) \<longleftrightarrow> \<not> later_k K j"
    proof cases
      case i
      then show ?thesis using nth [of i] j li old [of i] by (simp add: add_flag_def)
    next
      case m
      then show ?thesis using nth [of m] j new [of m] im by (simp add: add_flag_def)
    next
      case other
      then show ?thesis using nth [of j] j new [of j] by simp
    qed
    consider (i) "j = i" | (m) "j = m" | (other) "i < j" "j \<noteq> m"
      using j by fastforce
    then show "FDS_TFIELD_MULTI_IE \<in> flags_f (?fs ! j) \<longleftrightarrow> later_k K j \<or> eadj_k K i j"
    proof cases
      case i
      then show ?thesis using nth [of i] j li by (simp add: add_flag_def)
    next
      case m
      have "eadj_k K i m"
        unfolding eadj_k_def using im eq first by (intro exI [of _ i]) simp
      then show ?thesis using m nth [of m] j by (simp add: add_flag_def)
    next
      case other
      have "\<not> (K ! i = K ! j \<and> (\<forall>y. i < y \<and> y < j \<longrightarrow> K ! y \<noteq> K ! j))"
      proof
        assume a: "K ! i = K ! j \<and> (\<forall>y. i < y \<and> y < j \<longrightarrow> K ! y \<noteq> K ! j)"
        have "\<not> j < m" using first other(1) a by metis
        with other(2) have "m < j" by simp
        with a im eq show False by metis
      qed
      then have "eadj_k K i j \<longleftrightarrow> eadj_k K (Suc i) j"
        using other(1) by (intro eadj_k_Suc) simp_all
      then show ?thesis using nth [of j] j other new [of j] by simp
    qed
  qed
qed

lemma bit_push_bit_1_iff: "bit (push_bit b 1 :: u64) c \<longleftrightarrow> c = b" if "b < 64"
  using that by (auto simp add: bit_exp_iff possible_bit_word)

lemma and_push_bit_1_eq_0_iff: "(hash AND push_bit b 1 = 0) \<longleftrightarrow> \<not> bit hash b"
  if "b < 64" for hash :: u64
proof
  assume z: "hash AND push_bit b 1 = 0"
  show "\<not> bit hash b"
  proof
    assume "bit hash b"
    then have "bit (hash AND push_bit b 1) b"
      by (simp only: bit_and_iff bit_push_bit_1_iff [OF that])
    with z show False by simp
  qed
next
  assume n: "\<not> bit hash b"
  show "hash AND push_bit b 1 = 0"
  proof (rule bit_eqI)
    fix j
    have "\<not> bit (hash AND push_bit b 1) j"
      using n by (auto simp only: bit_and_iff bit_push_bit_1_iff [OF that])
    then show "bit (hash AND push_bit b 1) j \<longleftrightarrow> bit (0 :: u64) j"
      by simp
  qed
qed

lemma bit_or_push_bit_1_iff: "bit (hash OR push_bit b 1) c \<longleftrightarrow> bit hash c \<or> c = b"
  if "b < 64" for hash :: u64
  by (simp only: bit_or_iff bit_push_bit_1_iff [OF that])

lemma unat_mod_64_less: "unat (w mod 64) < 64" for w :: u16
  by (simp add: unat_mod)

lemma hash_inv_step_set:
  assumes "hash_inv K (Suc i) hash" and "i < length K"
  shows "hash_inv K i (hash OR push_bit (unat (fst (K ! i) mod 64)) 1)"
  unfolding hash_inv_def
proof (intro allI impI)
  fix b :: nat assume b: "b < 64"
  have old: "bit hash b \<longleftrightarrow> (\<exists>j. Suc i \<le> j \<and> j < length K \<and> unat (fst (K ! j) mod 64) = b)"
    using assms(1) b unfolding hash_inv_def by blast
  have "(\<exists>j. i \<le> j \<and> j < length K \<and> unat (fst (K ! j) mod 64) = b)
     \<longleftrightarrow> unat (fst (K ! i) mod 64) = b
         \<or> (\<exists>j. Suc i \<le> j \<and> j < length K \<and> unat (fst (K ! j) mod 64) = b)"
    using assms(2) by (metis Suc_leI le_neq_implies_less order_refl Suc_leD)
  then have new: "(\<exists>j. i \<le> j \<and> j < length K \<and> unat (fst (K ! j) mod 64) = b)
     \<longleftrightarrow> bit hash b \<or> b = unat (fst (K ! i) mod 64)"
    unfolding old by (simp only: disj_commute eq_commute)
  have "bit (hash OR push_bit (unat (fst (K ! i) mod 64)) 1) b
     \<longleftrightarrow> bit hash b \<or> b = unat (fst (K ! i) mod 64)"
    by (rule bit_or_push_bit_1_iff [OF unat_mod_64_less])
  then show "bit (hash OR push_bit (unat (fst (K ! i) mod 64)) 1) b
     \<longleftrightarrow> (\<exists>j. i \<le> j \<and> j < length K \<and> unat (fst (K ! j) mod 64) = b)"
    unfolding new .
qed

lemma hash_inv_step_keep:
  assumes "hash_inv K (Suc i) hash" and "i < length K"
    and "bit hash (unat (fst (K ! i) mod 64))"
  shows "hash_inv K i hash"
  unfolding hash_inv_def
proof (intro allI impI)
  fix b :: nat assume b: "b < 64"
  have old: "bit hash b \<longleftrightarrow> (\<exists>j. Suc i \<le> j \<and> j < length K \<and> unat (fst (K ! j) mod 64) = b)"
    using assms(1) b unfolding hash_inv_def by blast
  have "(\<exists>j. i \<le> j \<and> j < length K \<and> unat (fst (K ! j) mod 64) = b)
     \<longleftrightarrow> unat (fst (K ! i) mod 64) = b
         \<or> (\<exists>j. Suc i \<le> j \<and> j < length K \<and> unat (fst (K ! j) mod 64) = b)"
    using assms(2) by (metis Suc_leI le_neq_implies_less order_refl Suc_leD)
  then show "bit hash b \<longleftrightarrow> (\<exists>j. i \<le> j \<and> j < length K \<and> unat (fst (K ! j) mod 64) = b)"
    using old assms(3) by auto
qed

lemma hash_clear_no_later:
  assumes "hash_inv K (Suc i) hash" and "\<not> bit hash (unat (fst (K ! i) mod 64))"
  shows "\<not> later_k K i"
proof
  assume "later_k K i"
  then obtain x where x: "i < x" "x < length K" "K ! x = K ! i"
    unfolding later_k_def by blast
  have "bit hash (unat (fst (K ! i) mod 64))
      \<longleftrightarrow> (\<exists>j. Suc i \<le> j \<and> j < length K
              \<and> unat (fst (K ! j) mod 64) = unat (fst (K ! i) mod 64))"
    using assms(1) unat_mod_64_less [of "fst (K ! i)"] unfolding hash_inv_def by blast
  moreover have "\<exists>j. Suc i \<le> j \<and> j < length K
              \<and> unat (fst (K ! j) mod 64) = unat (fst (K ! i) mod 64)"
    using x by (intro exI [of _ x]) simp
  ultimately show False using assms(2) by simp
qed

lemma later_k_first:
  assumes "later_k K i"
  obtains m where "i < m" and "m < length K" and "K ! m = K ! i"
    and "\<forall>y. i < y \<and> y < m \<longrightarrow> K ! y \<noteq> K ! i"
proof -
  let ?P = "\<lambda>x. i < x \<and> x < length K \<and> K ! x = K ! i"
  have ex: "\<exists>x. ?P x" using assms unfolding later_k_def by blast
  have P: "?P (Least ?P)" using ex by (rule LeastI_ex)
  have "\<forall>y. i < y \<and> y < Least ?P \<longrightarrow> K ! y \<noteq> K ! i"
  proof (intro allI impI)
    fix y assume y: "i < y \<and> y < Least ?P"
    then have "\<not> ?P y" using not_less_Least by blast
    moreover have "y < length K" using y P by simp
    ultimately show "K ! y \<noteq> K ! i" using y by simp
  qed
  with P that show thesis by blast
qed

lemma calc_flags_outer_inv:
  assumes "flags_inv K k fs" and "hash_inv K k hash" and "k \<le> length K"
    and "map key_f fs = K" and "n = length K"
  shows "flags_inv K 0 (calc_flags_outer n k hash fs)
         \<and> flag_ext {FDS_TFIELD_LAST_IE, FDS_TFIELD_MULTI_IE} fs (calc_flags_outer n k hash fs)"
  using assms
proof (induction k arbitrary: hash fs)
  case 0
  then show ?case by (simp add: flag_ext_refl)
next
  case (Suc i)
  let ?S = "{FDS_TFIELD_LAST_IE, FDS_TFIELD_MULTI_IE}"
  have i: "i < length K" using Suc.prems(3) by simp
  have len: "length fs = length K" using Suc.prems(4) by (metis length_map)
  have key: "\<And>j. j < length K \<Longrightarrow> key_f (fs ! j) = K ! j"
    using Suc.prems(4) len by (metis nth_map)
  have idi: "id_f (fs ! i) = fst (K ! i)"
    using key [OF i] by (metis key_f_def fst_conv)
  let ?b = "unat (fst (K ! i) mod 64)"
  let ?last = "fs[i := add_flag FDS_TFIELD_LAST_IE (fs ! i)]"
  have last_keys: "map key_f ?last = K"
    using flag_ext_keys [OF flag_ext_update [of FDS_TFIELD_LAST_IE ?S fs i]] Suc.prems(4) by simp
  have last_ext: "flag_ext ?S fs ?last"
    by (rule flag_ext_update) simp
  show ?case
  proof (cases "bit hash ?b")
    case False
    have nl: "\<not> later_k K i"
      using hash_clear_no_later [OF Suc.prems(2) False] .
    have z: "hash AND push_bit ?b 1 = 0"
      using False and_push_bit_1_eq_0_iff [OF unat_mod_64_less, of hash "fst (K ! i)"] by blast
    have eq: "calc_flags_outer n (Suc i) hash fs
                = calc_flags_outer n i (hash OR push_bit ?b 1) ?last"
      using z by (simp add: idi Let_def)
    have "flags_inv K 0 (calc_flags_outer n i (hash OR push_bit ?b 1) ?last)
         \<and> flag_ext ?S ?last (calc_flags_outer n i (hash OR push_bit ?b 1) ?last)"
      using Suc.IH [OF flags_inv_step_last [OF Suc.prems(1) i nl]
          hash_inv_step_set [OF Suc.prems(2) i] _ last_keys Suc.prems(5)] i by simp
    then show ?thesis
      using eq flag_ext_trans [OF last_ext] by simp
  next
    case True
    have nz: "hash AND push_bit ?b 1 \<noteq> 0"
      using True and_push_bit_1_eq_0_iff [OF unat_mod_64_less, of hash "fst (K ! i)"] by blast
    have hk: "hash_inv K i hash"
      using hash_inv_step_keep [OF Suc.prems(2) i True] .
    show ?thesis
    proof (cases "later_k K i")
      case False
      have "\<forall>y. i + 1 \<le> y \<and> y < n \<longrightarrow> key_f (fs ! y) \<noteq> key_f (fs ! i)"
        using False key i Suc.prems(5) unfolding later_k_def by (metis Suc_eq_plus1 Suc_le_lessD)
      then have inner: "calc_flags_inner n i (i + 1) fs = (fs, False)"
        by (rule calc_flags_inner_none)
      have eq: "calc_flags_outer n (Suc i) hash fs = calc_flags_outer n i hash ?last"
        using nz inner by (simp add: idi Let_def)
      have "flags_inv K 0 (calc_flags_outer n i hash ?last)
           \<and> flag_ext ?S ?last (calc_flags_outer n i hash ?last)"
        using Suc.IH [OF flags_inv_step_last [OF Suc.prems(1) i False] hk _ last_keys
            Suc.prems(5)] i by simp
      then show ?thesis
        using eq flag_ext_trans [OF last_ext] by simp
    next
      case True
      then obtain m where m: "i < m" "m < length K" "K ! m = K ! i"
          "\<forall>y. i < y \<and> y < m \<longrightarrow> K ! y \<noteq> K ! i"
        by (rule later_k_first)
      let ?multi = "fs[i := add_flag FDS_TFIELD_MULTI_IE (fs ! i),
                       m := add_flag FDS_TFIELD_MULTI_IE (fs ! m)]"
      have first: "\<forall>y. i + 1 \<le> y \<and> y < m \<longrightarrow> key_f (fs ! y) \<noteq> key_f (fs ! i)"
        using m key i by (metis Suc_eq_plus1 Suc_le_lessD less_trans)
      have inner: "calc_flags_inner n i (i + 1) fs = (?multi, True)"
        using m key i first Suc.prems(5) len
        by (intro calc_flags_inner_first) simp_all
      have eq: "calc_flags_outer n (Suc i) hash fs = calc_flags_outer n i hash ?multi"
        using nz inner by (simp add: idi Let_def)
      have e1: "flag_ext ?S fs (fs[i := add_flag FDS_TFIELD_MULTI_IE (fs ! i)])"
        by (rule flag_ext_update) simp
      have "fs[i := add_flag FDS_TFIELD_MULTI_IE (fs ! i)] ! m = fs ! m"
        using m by simp
      then have e2: "flag_ext ?S (fs[i := add_flag FDS_TFIELD_MULTI_IE (fs ! i)]) ?multi"
        using flag_ext_update [of FDS_TFIELD_MULTI_IE ?S
            "fs[i := add_flag FDS_TFIELD_MULTI_IE (fs ! i)]" m] by simp
      have multi_ext: "flag_ext ?S fs ?multi"
        using flag_ext_trans [OF e1 e2] .
      have multi_keys: "map key_f ?multi = K"
        using flag_ext_keys [OF multi_ext] Suc.prems(4) by simp
      have "flags_inv K 0 (calc_flags_outer n i hash ?multi)
           \<and> flag_ext ?S ?multi (calc_flags_outer n i hash ?multi)"
        using Suc.IH [OF flags_inv_step_multi [OF Suc.prems(1) m] hk _ multi_keys
            Suc.prems(5)] i by simp
      then show ?thesis
        using eq flag_ext_trans [OF multi_ext] by simp
    qed
  qed
qed

lemma scope_fold:
  assumes "k \<le> length fs"
  shows "length (fold (\<lambda>i fs. fs[i := add_flag FDS_TFIELD_SCOPE (fs ! i)]) [0..<k] fs) = length fs
     \<and> (\<forall>j<length fs.
           fold (\<lambda>i fs. fs[i := add_flag FDS_TFIELD_SCOPE (fs ! i)]) [0..<k] fs ! j
             = (if j < k then add_flag FDS_TFIELD_SCOPE (fs ! j) else fs ! j))"
  using assms
proof (induction k)
  case 0
  show ?case by simp
next
  case (Suc k)
  let ?r = "fold (\<lambda>i fs. fs[i := add_flag FDS_TFIELD_SCOPE (fs ! i)]) [0..<k] fs"
  have ih: "length ?r = length fs"
    "\<forall>j<length fs. ?r ! j = (if j < k then add_flag FDS_TFIELD_SCOPE (fs ! j) else fs ! j)"
    using Suc by simp_all
  have k: "k < length fs" using Suc.prems by simp
  have step: "fold (\<lambda>i fs. fs[i := add_flag FDS_TFIELD_SCOPE (fs ! i)]) [0..<Suc k] fs
        = ?r[k := add_flag FDS_TFIELD_SCOPE (?r ! k)]"
    by simp
  show ?case
    unfolding step using ih k by (auto simp add: nth_list_update less_Suc_eq)
qed

lemma flags_inv_init:
  assumes "\<forall>j<length fs. FDS_TFIELD_LAST_IE \<notin> flags_f (fs ! j)
              \<and> FDS_TFIELD_MULTI_IE \<notin> flags_f (fs ! j)"
  shows "flags_inv (map key_f fs) (length fs) fs"
  using assms by (auto simp add: flags_inv_def)

lemma hash_inv_init: "hash_inv K (length K) 0"
  by (simp add: hash_inv_def)

lemma flag_ext_mono:
  assumes "flag_ext S fs r" and "S \<subseteq> S'"
  shows "flag_ext S' fs r"
  unfolding flag_ext_def
proof (intro conjI allI impI)
  show "length r = length fs" using assms(1) by (simp add: flag_ext_def)
next
  fix j assume "j < length fs"
  then obtain A where A: "A \<subseteq> S" "r ! j = (fs ! j)\<lparr>flags_f := flags_f (fs ! j) \<union> A\<rparr>"
    using assms(1) unfolding flag_ext_def by blast
  from A(1) assms(2) have "A \<subseteq> S'" by (rule order_trans)
  with A(2) show "\<exists>A. A \<subseteq> S' \<and> r ! j = (fs ! j)\<lparr>flags_f := flags_f (fs ! j) \<union> A\<rparr>"
    by blast
qed

lemma template_fields_calc_flags_post:
  assumes len: "length (fields_t t) = unat (fields_cnt_total t)"
    and sc: "unat (fields_cnt_scope t) \<le> unat (fields_cnt_total t)"
    and nofl: "\<forall>j<length (fields_t t). flags_f (fields_t t ! j) = {}"
  shows "\<exists>r. template_fields_calc_flags t = t\<lparr>fields_t := r\<rparr>
            \<and> flags_inv (map key_f r) 0 r
            \<and> flag_ext {FDS_TFIELD_SCOPE, FDS_TFIELD_LAST_IE, FDS_TFIELD_MULTI_IE} (fields_t t) r
            \<and> (\<forall>j<length r. FDS_TFIELD_SCOPE \<in> flags_f (r ! j) \<longleftrightarrow> j < unat (fields_cnt_scope t))"
proof -
  let ?fs = "fields_t t"
  let ?S = "{FDS_TFIELD_SCOPE, FDS_TFIELD_LAST_IE, FDS_TFIELD_MULTI_IE}"
  let ?fs1 = "fold (\<lambda>i fs. fs[i := add_flag FDS_TFIELD_SCOPE (fs ! i)])
                [0..<unat (fields_cnt_scope t)] ?fs"
  let ?n = "unat (fields_cnt_total t)"
  let ?r = "calc_flags_outer ?n ?n 0 ?fs1"
  have sc': "unat (fields_cnt_scope t) \<le> length ?fs" using len sc by simp
  have l1: "length ?fs1 = length ?fs"
    and n1: "\<forall>j<length ?fs. ?fs1 ! j
             = (if j < unat (fields_cnt_scope t) then add_flag FDS_TFIELD_SCOPE (?fs ! j) else ?fs ! j)"
    using scope_fold [OF sc'] by simp_all
  have fl1: "\<forall>j<length ?fs. flags_f (?fs1 ! j)
        = (if j < unat (fields_cnt_scope t) then {FDS_TFIELD_SCOPE} else {})"
    using n1 nofl by (simp add: add_flag_def)
  have ext1: "flag_ext ?S ?fs ?fs1"
    unfolding flag_ext_def
  proof (intro conjI allI impI)
    show "length ?fs1 = length ?fs" by (rule l1)
  next
    fix j assume j: "j < length ?fs"
    show "\<exists>A. A \<subseteq> ?S \<and> ?fs1 ! j = (?fs ! j)\<lparr>flags_f := flags_f (?fs ! j) \<union> A\<rparr>"
    proof (cases "j < unat (fields_cnt_scope t)")
      case True
      show ?thesis
        by (rule exI [of _ "{FDS_TFIELD_SCOPE}"]) (use True n1 j in \<open>simp add: add_flag_def\<close>)
    next
      case False
      show ?thesis
        by (rule exI [of _ "{}"]) (use False n1 j in simp)
    qed
  qed
  have inv1: "flags_inv (map key_f ?fs1) (length ?fs1) ?fs1"
    by (rule flags_inv_init) (use fl1 l1 in simp)
  have post: "flags_inv (map key_f ?fs1) 0 ?r
      \<and> flag_ext {FDS_TFIELD_LAST_IE, FDS_TFIELD_MULTI_IE} ?fs1 ?r"
  proof (rule calc_flags_outer_inv)
    show "flags_inv (map key_f ?fs1) ?n ?fs1" using inv1 l1 len by simp
    show "hash_inv (map key_f ?fs1) ?n 0"
      using hash_inv_init [of "map key_f ?fs1"] l1 len by simp
    show "?n \<le> length (map key_f ?fs1)" using l1 len by simp
    show "map key_f ?fs1 = map key_f ?fs1" by (rule refl)
    show "?n = length (map key_f ?fs1)" using l1 len by simp
  qed
  have ext2: "flag_ext ?S ?fs1 ?r"
    by (rule flag_ext_mono [OF conjunct2 [OF post]]) simp
  have ext: "flag_ext ?S ?fs ?r"
    using flag_ext_trans [OF ext1 ext2] .
  have keys: "map key_f ?r = map key_f ?fs1"
    using flag_ext_keys [OF conjunct2 [OF post]] .
  have lr: "length ?r = length ?fs"
    using ext by (simp add: flag_ext_def)
  have scope: "\<forall>j<length ?r. FDS_TFIELD_SCOPE \<in> flags_f (?r ! j) \<longleftrightarrow> j < unat (fields_cnt_scope t)"
  proof (intro allI impI)
    fix j assume j: "j < length ?r"
    then have j1: "j < length ?fs1" using lr l1 by simp
    have a: "flags_f (?fs1 ! j) \<subseteq> flags_f (?r ! j)"
      and b: "flags_f (?r ! j) \<subseteq> flags_f (?fs1 ! j) \<union> {FDS_TFIELD_LAST_IE, FDS_TFIELD_MULTI_IE}"
      using flag_ext_nth(7,8) [OF conjunct2 [OF post] j1] by simp_all
    have "FDS_TFIELD_SCOPE \<in> flags_f (?r ! j) \<longleftrightarrow> FDS_TFIELD_SCOPE \<in> flags_f (?fs1 ! j)"
      using a b by auto
    then show "FDS_TFIELD_SCOPE \<in> flags_f (?r ! j) \<longleftrightarrow> j < unat (fields_cnt_scope t)"
      using fl1 j lr by simp
  qed
  have "template_fields_calc_flags t = t\<lparr>fields_t := ?r\<rparr>"
    by (simp add: template_fields_calc_flags_def Let_def)
  then show ?thesis
    using post keys ext scope by (intro exI [of _ ?r]) simp
qed

subsection \<open>Offsets and the data length\<close>

lemma calc_features_fold:
  assumes "k \<le> length (fields_t t)"
  shows "\<exists>fs' F. fold calc_features_step [0..<k] (t, 0, 0)
             = (t\<lparr>fields_t := fs', flags_t := F\<rparr>,
                data_len_cursor (take k (fields_t t)), offset_cursor (take k (fields_t t)))
           \<and> length fs' = length (fields_t t)
           \<and> (\<forall>j<length (fields_t t).
                 fs' ! j = (if j < k
                            then (fields_t t ! j)\<lparr>offset := offset_cursor (take j (fields_t t))\<rparr>
                            else fields_t t ! j))
           \<and> (\<forall>x. x \<in> F \<longleftrightarrow>
                 x \<in> flags_t t
                 \<or> x = FDS_TEMPLATE_HAS_MULTI_IE
                     \<and> (\<exists>j<k. FDS_TFIELD_MULTI_IE \<in> flags_f (fields_t t ! j))
                 \<or> x = FDS_TEMPLATE_HAS_DYNAMIC
                     \<and> (\<exists>j<k. length_f (fields_t t ! j) = IPFIX_VAR_IE_LENGTH))"
  using assms
proof (induction k)
  case 0
  show ?case
    by (rule exI [of _ "fields_t t"], rule exI [of _ "flags_t t"])
       (simp add: data_len_cursor_def offset_cursor_def)
next
  case (Suc k)
  let ?fs = "fields_t t"
  from Suc obtain fs' F where
    f: "fold calc_features_step [0..<k] (t, 0, 0)
          = (t\<lparr>fields_t := fs', flags_t := F\<rparr>,
             data_len_cursor (take k ?fs), offset_cursor (take k ?fs))"
    and l: "length fs' = length ?fs"
    and e: "\<forall>j<length ?fs. fs' ! j
              = (if j < k then (?fs ! j)\<lparr>offset := offset_cursor (take j ?fs)\<rparr> else ?fs ! j)"
    and F: "\<forall>x. x \<in> F \<longleftrightarrow>
                 x \<in> flags_t t
                 \<or> x = FDS_TEMPLATE_HAS_MULTI_IE
                     \<and> (\<exists>j<k. FDS_TFIELD_MULTI_IE \<in> flags_f (?fs ! j))
                 \<or> x = FDS_TEMPLATE_HAS_DYNAMIC
                     \<and> (\<exists>j<k. length_f (?fs ! j) = IPFIX_VAR_IE_LENGTH)"
    by auto
  have k: "k < length ?fs" using Suc.prems by simp
  have fk: "fs' ! k = ?fs ! k" using e k by simp
  have tk: "take (Suc k) ?fs = take k ?fs @ [?fs ! k]"
    using k by (rule take_Suc_conv_app_nth)
  let ?off = "offset_cursor (take k ?fs)"
  let ?d = "data_len_cursor (take k ?fs)"
  let ?fs'' = "fs'[k := (?fs ! k)\<lparr>offset := ?off\<rparr>]"
  let ?F' = "(if FDS_TFIELD_MULTI_IE \<in> flags_f (?fs ! k)
              then insert FDS_TEMPLATE_HAS_MULTI_IE F else F)
             \<union> (if length_f (?fs ! k) = IPFIX_VAR_IE_LENGTH
                 then {FDS_TEMPLATE_HAS_DYNAMIC} else {})"
  have oc: "offset_cursor (take (Suc k) ?fs) = next_offset (?fs ! k) ?off"
    by (simp add: tk offset_cursor_def)
  have dc: "data_len_cursor (take (Suc k) ?fs) = next_data_len (?fs ! k) ?d"
    by (simp add: tk data_len_cursor_def)
  have step: "calc_features_step k (t\<lparr>fields_t := fs', flags_t := F\<rparr>, ?d, ?off)
      = (t\<lparr>fields_t := ?fs'', flags_t := ?F'\<rparr>,
         next_data_len (?fs ! k) ?d, next_offset (?fs ! k) ?off)"
    using k l fk
    by (simp add: calc_features_step_def Let_def next_data_len_def next_offset_def)
  have "fold calc_features_step [0..<Suc k] (t, 0, 0)
      = (t\<lparr>fields_t := ?fs'', flags_t := ?F'\<rparr>,
         data_len_cursor (take (Suc k) ?fs), offset_cursor (take (Suc k) ?fs))"
    by (simp only: upt_Suc_append [OF le0] fold_append o_apply f fold.simps id_apply step oc dc)
  moreover have "length ?fs'' = length ?fs" using l by simp
  moreover have "\<forall>j<length ?fs. ?fs'' ! j
        = (if j < Suc k then (?fs ! j)\<lparr>offset := offset_cursor (take j ?fs)\<rparr> else ?fs ! j)"
    using e l k by (auto simp add: nth_list_update less_Suc_eq)
  moreover have "\<forall>x. x \<in> ?F' \<longleftrightarrow>
                 x \<in> flags_t t
                 \<or> x = FDS_TEMPLATE_HAS_MULTI_IE
                     \<and> (\<exists>j<Suc k. FDS_TFIELD_MULTI_IE \<in> flags_f (?fs ! j))
                 \<or> x = FDS_TEMPLATE_HAS_DYNAMIC
                     \<and> (\<exists>j<Suc k. length_f (?fs ! j) = IPFIX_VAR_IE_LENGTH)"
    using F by (auto simp add: less_Suc_eq)
  ultimately show ?case
    by (intro exI [of _ ?fs''] exI [of _ ?F']) simp
qed

lemma field_data_len_le: "field_data_len f \<le> 65535"
proof -
  have "unat (length_f f) < 2 ^ 16"
    using unsigned_less [of "length_f f"] by simp
  then show ?thesis by (simp add: field_data_len_def)
qed

lemma offset_cursor_snoc: "offset_cursor (fs @ [f]) = next_offset f (offset_cursor fs)"
  by (simp add: offset_cursor_def)

lemma data_len_cursor_snoc: "data_len_cursor (fs @ [f]) = next_data_len f (data_len_cursor fs)"
  by (simp add: data_len_cursor_def)

lemma min_data_len_snoc: "min_data_len (fs @ [f]) = min_data_len fs + field_data_len f"
  by (simp add: min_data_len_def)

lemma unat_next_data_len:
  assumes "unat d + 65535 < 2 ^ 32"
  shows "unat (next_data_len f d) = unat d + field_data_len f"
proof (cases "length_f f = IPFIX_VAR_IE_LENGTH")
  case True
  have "unat d + unat (1 :: u32) < 2 ^ LENGTH(32)" using assms by simp
  then have "unat (d + 1) = unat d + unat (1 :: u32)"
    by (simp only: unat_add_lem)
  then show ?thesis
    using True by (simp add: next_data_len_def field_data_len_def IPFIX_VAR_IE_LENGTH_def)
next
  case False
  have "unat (length_f f) < 2 ^ 16"
    using unsigned_less [of "length_f f"] by simp
  then have u: "unat (ucast (length_f f) :: u32) = unat (length_f f)"
    by (simp add: unsigned_ucast_eq take_bit_nat_eq_self)
  have "unat (length_f f) \<le> 65535"
    using field_data_len_le [of f] False
    by (simp add: field_data_len_def IPFIX_VAR_IE_LENGTH_def)
  then have "unat d + unat (ucast (length_f f) :: u32) < 2 ^ LENGTH(32)"
    using assms u by simp
  then have "unat (d + ucast (length_f f)) = unat d + unat (ucast (length_f f) :: u32)"
    by (simp only: unat_add_lem)
  then show ?thesis
    using False u by (simp add: next_data_len_def field_data_len_def IPFIX_VAR_IE_LENGTH_def)
qed

lemma unat_data_len_cursor:
  assumes "length fs \<le> 65535"
  shows "unat (data_len_cursor fs) = min_data_len fs \<and> min_data_len fs \<le> 65535 * length fs"
  using assms
proof (induction fs rule: rev_induct)
  case Nil
  show ?case by (simp add: data_len_cursor_def min_data_len_def)
next
  case (snoc f fs)
  then have ih: "unat (data_len_cursor fs) = min_data_len fs"
    and b: "min_data_len fs \<le> 65535 * length fs" and l: "length fs \<le> 65534"
    by simp_all
  have "unat (data_len_cursor fs) + 65535 < 2 ^ 32"
    using ih b l by simp
  then have "unat (next_data_len f (data_len_cursor fs)) = min_data_len fs + field_data_len f"
    using ih by (simp only: unat_next_data_len)
  moreover have "min_data_len fs + field_data_len f \<le> 65535 * length (fs @ [f])"
    using b field_data_len_le [of f] by simp
  ultimately show ?case
    by (simp only: data_len_cursor_snoc min_data_len_snoc)
qed

lemma offset_cursor_var:
  assumes "\<exists>f\<in>set fs. length_f f = IPFIX_VAR_IE_LENGTH"
  shows "offset_cursor fs = IPFIX_VAR_IE_LENGTH"
  using assms
proof (induction fs rule: rev_induct)
  case Nil
  then show ?case by simp
next
  case (snoc f fs)
  show ?case
  proof (cases "length_f f = IPFIX_VAR_IE_LENGTH")
    case True
    then show ?thesis by (simp add: offset_cursor_snoc next_offset_def)
  next
    case False
    then have "\<exists>f\<in>set fs. length_f f = IPFIX_VAR_IE_LENGTH"
      using snoc.prems by auto
    then have "offset_cursor fs = IPFIX_VAR_IE_LENGTH" by (rule snoc.IH)
    then show ?thesis using False by (simp add: offset_cursor_snoc next_offset_def)
  qed
qed

lemma offset_cursor_fixed:
  assumes "\<forall>f\<in>set fs. length_f f \<noteq> IPFIX_VAR_IE_LENGTH"
    and "sum_list (map (\<lambda>f. unat (length_f f)) fs) < 65535"
  shows "unat (offset_cursor fs) = sum_list (map (\<lambda>f. unat (length_f f)) fs)"
  using assms
proof (induction fs rule: rev_induct)
  case Nil
  show ?case by (simp add: offset_cursor_def)
next
  case (snoc f fs)
  let ?s = "sum_list (map (\<lambda>f. unat (length_f f)) fs)"
  have s: "?s + unat (length_f f) < 65535" using snoc.prems(2) by simp
  have ih: "unat (offset_cursor fs) = ?s"
    using snoc.IH snoc.prems s by simp
  have nv: "offset_cursor fs \<noteq> IPFIX_VAR_IE_LENGTH"
  proof
    assume "offset_cursor fs = IPFIX_VAR_IE_LENGTH"
    then have "unat (offset_cursor fs) = 65535" by (simp add: IPFIX_VAR_IE_LENGTH_def)
    with ih s show False by simp
  qed
  have fv: "length_f f \<noteq> IPFIX_VAR_IE_LENGTH" using snoc.prems(1) by simp
  have "unat (offset_cursor fs) + unat (length_f f) < 2 ^ LENGTH(16)"
    using ih s by simp
  then have "unat (offset_cursor fs + length_f f) = unat (offset_cursor fs) + unat (length_f f)"
    by (simp only: unat_add_lem)
  then show ?case
    using nv fv ih by (simp add: offset_cursor_snoc next_offset_def)
qed

lemma min_data_len_fixed:
  assumes "\<forall>f\<in>set fs. length_f f \<noteq> IPFIX_VAR_IE_LENGTH"
  shows "min_data_len fs = sum_list (map (\<lambda>f. unat (length_f f)) fs)"
  using assms
  by (induction fs) (simp_all add: min_data_len_def field_data_len_def IPFIX_VAR_IE_LENGTH_def)

lemma min_data_len_take: "min_data_len (take i fs) \<le> min_data_len fs"
proof -
  have "min_data_len fs = min_data_len (take i fs) + min_data_len (drop i fs)"
    unfolding min_data_len_def
    by (metis append_take_drop_id map_append sum_list_append)
  then show ?thesis by simp
qed

lemma offset_cursor_cong:
  assumes "map length_f xs = map length_f ys"
  shows "offset_cursor xs = offset_cursor ys"
proof -
  have "fold next_offset xs a = fold next_offset ys a" for a
    using assms
  proof (induction xs arbitrary: ys a)
    case Nil
    then show ?case by simp
  next
    case (Cons x xs)
    then obtain y ys' where ys: "ys = y # ys'" by (cases ys) auto
    with Cons.prems have "length_f x = length_f y" "map length_f xs = map length_f ys'"
      by simp_all
    then show ?case
      using Cons.IH [of ys'] ys by (simp add: next_offset_def)
  qed
  then show ?thesis by (simp add: offset_cursor_def)
qed

lemma min_data_len_cong:
  assumes "map length_f xs = map length_f ys"
  shows "min_data_len xs = min_data_len ys"
proof -
  have "map field_data_len xs = map (\<lambda>l. if l = 65535 then 1 else unat l) (map length_f xs)"
    by (simp add: field_data_len_def)
  moreover have "map field_data_len ys = map (\<lambda>l. if l = 65535 then 1 else unat l) (map length_f ys)"
    by (simp add: field_data_len_def)
  ultimately show ?thesis
    using assms by (simp only: min_data_len_def)
qed

lemma flags_inv_cong:
  assumes "flags_inv K k r" and "length fs' = length r"
    and "\<forall>j<length r. flags_f (fs' ! j) = flags_f (r ! j)"
  shows "flags_inv K k fs'"
proof -
  have l: "length r = length K" using assms(1) by (simp add: flags_inv_def)
  show ?thesis
    using assms(1) unfolding flags_inv_def
    by (simp add: assms(2) l assms(3) [unfolded l])
qed

lemma add_opts_type_frame:
  "add_opts_type T t = t\<lparr>opts_types := opts_types (add_opts_type T t)\<rparr>"
  by (simp add: add_opts_type_def)

lemma opts_detect_mproc_frame:
  "opts_detect_mproc t = t\<lparr>opts_types := opts_types (opts_detect_mproc t)\<rparr>"
  by (simp add: opts_detect_mproc_def Let_def add_opts_type_def)

lemma opts_detect_eproc_frame:
  "opts_detect_eproc t = t\<lparr>opts_types := opts_types (opts_detect_eproc t)\<rparr>"
  by (simp add: opts_detect_eproc_def Let_def add_opts_type_def)

lemma opts_detect_flowkey_frame:
  "opts_detect_flowkey t = t\<lparr>opts_types := opts_types (opts_detect_flowkey t)\<rparr>"
  by (simp add: opts_detect_flowkey_def Let_def add_opts_type_def split: option.split)

lemma opts_detect_ietype_frame:
  "opts_detect_ietype t = t\<lparr>opts_types := opts_types (opts_detect_ietype t)\<rparr>"
  by (simp add: opts_detect_ietype_def Let_def add_opts_type_def)

lemma opts_detector_frame:
  "opts_detector t = t\<lparr>opts_types := opts_types (opts_detector t)\<rparr>"
proof -
  let ?a = "opts_detect_mproc t"
  let ?b = "opts_detect_eproc ?a"
  let ?c = "opts_detect_flowkey ?b"
  let ?d = "opts_detect_ietype ?c"
  have a: "?a = t\<lparr>opts_types := opts_types ?a\<rparr>" by (rule opts_detect_mproc_frame)
  have b: "?b = ?a\<lparr>opts_types := opts_types ?b\<rparr>" by (rule opts_detect_eproc_frame)
  have c: "?c = ?b\<lparr>opts_types := opts_types ?c\<rparr>" by (rule opts_detect_flowkey_frame)
  have d: "?d = ?c\<lparr>opts_types := opts_types ?d\<rparr>" by (rule opts_detect_ietype_frame)
  have "?d = t\<lparr>opts_types := opts_types ?d\<rparr>"
    by (subst d, subst c, subst b, subst a) simp
  then show ?thesis by (simp only: opts_detector_def)
qed

lemma template_calc_features_post:
  assumes pre: "pre_features t0" and ok: "template_calc_features t0 = Inr t"
  shows "\<exists>t2. t = (if type_t t0 = FDS_TYPE_TEMPLATE_OPTS then opts_detector t2 else t2)
                     \<lparr>data_length := data_length t\<rparr>
           \<and> t2 = t0\<lparr>fields_t := fields_t t, flags_t := flags_t t\<rparr>"
    and "length (fields_t t) = unat (fields_cnt_total t)"
    and "flags_inv (map key_f (fields_t t)) 0 (fields_t t)"
    and "\<forall>j<length (fields_t t).
           flags_f (fields_t t ! j) \<subseteq> {FDS_TFIELD_SCOPE, FDS_TFIELD_LAST_IE, FDS_TFIELD_MULTI_IE}
           \<and> (FDS_TFIELD_SCOPE \<in> flags_f (fields_t t ! j) \<longleftrightarrow> j < unat (fields_cnt_scope t))
           \<and> def_f (fields_t t ! j) = None
           \<and> offset (fields_t t ! j) = offset_cursor (take j (fields_t t))"
    and "map key_f (fields_t t) = map key_f (fields_t t0)"
    and "map length_f (fields_t t) = map length_f (fields_t t0)"
    and "\<forall>x. x \<in> flags_t t \<longleftrightarrow>
           x = FDS_TEMPLATE_HAS_MULTI_IE
             \<and> (\<exists>j<length (fields_t t). FDS_TFIELD_MULTI_IE \<in> flags_f (fields_t t ! j))
           \<or> x = FDS_TEMPLATE_HAS_DYNAMIC
             \<and> (\<exists>j<length (fields_t t). length_f (fields_t t ! j) = IPFIX_VAR_IE_LENGTH)"
    and "unat (data_length t) = min_data_len (fields_t t)"
    and "min_data_len (fields_t t) \<le> 65515"
proof -
  let ?S = "{FDS_TFIELD_SCOPE, FDS_TFIELD_LAST_IE, FDS_TFIELD_MULTI_IE}"
  let ?fs = "fields_t t0"
  let ?n = "unat (fields_cnt_total t0)"
  have len0: "length ?fs = ?n" and sc0: "unat (fields_cnt_scope t0) \<le> ?n"
    and nofl: "\<forall>j<length ?fs. flags_f (?fs ! j) = {}"
    and nodef: "\<forall>j<length ?fs. def_f (?fs ! j) = None"
    and ft0: "flags_t t0 = {}"
    using pre by (simp_all add: pre_features_def)
  from template_fields_calc_flags_post [OF len0 sc0 nofl] obtain r where
    t1: "template_fields_calc_flags t0 = t0\<lparr>fields_t := r\<rparr>"
    and inv: "flags_inv (map key_f r) 0 r"
    and ext: "flag_ext ?S ?fs r"
    and scope: "\<forall>j<length r. FDS_TFIELD_SCOPE \<in> flags_f (r ! j) \<longleftrightarrow> j < unat (fields_cnt_scope t0)"
    by blast
  have lr: "length r = ?n" using ext len0 by (simp add: flag_ext_def)
  let ?t1 = "t0\<lparr>fields_t := r\<rparr>"
  have k: "?n \<le> length (fields_t ?t1)" using lr by simp
  from calc_features_fold [OF k] obtain fs' F where
    f: "fold calc_features_step [0..<?n] (?t1, 0, 0)
          = (?t1\<lparr>fields_t := fs', flags_t := F\<rparr>,
             data_len_cursor (take ?n (fields_t ?t1)), offset_cursor (take ?n (fields_t ?t1)))"
    and l': "length fs' = length (fields_t ?t1)"
    and e': "\<forall>j<length (fields_t ?t1).
               fs' ! j = (if j < ?n
                          then (fields_t ?t1 ! j)\<lparr>offset := offset_cursor (take j (fields_t ?t1))\<rparr>
                          else fields_t ?t1 ! j)"
    and F': "\<forall>x. x \<in> F \<longleftrightarrow>
                 x \<in> flags_t ?t1
                 \<or> x = FDS_TEMPLATE_HAS_MULTI_IE
                     \<and> (\<exists>j<?n. FDS_TFIELD_MULTI_IE \<in> flags_f (fields_t ?t1 ! j))
                 \<or> x = FDS_TEMPLATE_HAS_DYNAMIC
                     \<and> (\<exists>j<?n. length_f (fields_t ?t1 ! j) = IPFIX_VAR_IE_LENGTH)"
    by blast
  have l: "length fs' = ?n" using l' lr by simp
  have e: "\<And>j. j < ?n \<Longrightarrow> fs' ! j = (r ! j)\<lparr>offset := offset_cursor (take j r)\<rparr>"
    using e' lr by simp
  have F: "\<forall>x. x \<in> F \<longleftrightarrow>
                 x = FDS_TEMPLATE_HAS_MULTI_IE
                     \<and> (\<exists>j<?n. FDS_TFIELD_MULTI_IE \<in> flags_f (r ! j))
                 \<or> x = FDS_TEMPLATE_HAS_DYNAMIC
                     \<and> (\<exists>j<?n. length_f (r ! j) = IPFIX_VAR_IE_LENGTH)"
    using F' ft0 by simp
  let ?dl = "data_len_cursor r"
  let ?t2 = "t0\<lparr>fields_t := fs', flags_t := F\<rparr>"
  let ?t3 = "if type_t t0 = FDS_TYPE_TEMPLATE_OPTS then opts_detector ?t2 else ?t2"
  have f2: "fold calc_features_step [0..<?n] (?t1, 0, 0) = (?t2, ?dl, offset_cursor r)"
    using f lr by simp
  have unfold: "template_calc_features t0
      = (if ucast max_rec_size < ?dl then Inl FDS_ERR_FORMAT
         else Inr (?t3\<lparr>data_length := ucast ?dl\<rparr>))"
    by (simp add: template_calc_features_def t1 f2 Let_def)
  have small: "\<not> ucast max_rec_size < ?dl" and t: "t = ?t3\<lparr>data_length := ucast ?dl\<rparr>"
    using ok unfolding unfold by (simp_all split: if_splits)
  have t3: "?t3 = ?t2\<lparr>opts_types := opts_types ?t3\<rparr>"
    using opts_detector_frame [of ?t2] by (cases "type_t t0 = FDS_TYPE_TEMPLATE_OPTS") simp_all
  have tfull: "t = (?t2\<lparr>opts_types := opts_types ?t3\<rparr>)\<lparr>data_length := ucast ?dl\<rparr>"
    by (rule trans [OF t arg_cong [OF t3, of "\<lambda>x. x\<lparr>data_length := ucast ?dl\<rparr>"]])
  have ft: "fields_t t = fs'" and flt: "flags_t t = F"
    and ct: "fields_cnt_total t = fields_cnt_total t0"
    and cs: "fields_cnt_scope t = fields_cnt_scope t0"
    and dlt: "data_length t = ucast ?dl"
    by (simp_all add: tfull)
  have c1: "t = ?t3\<lparr>data_length := data_length t\<rparr>"
    unfolding dlt by (rule t)
  have c2: "?t2 = t0\<lparr>fields_t := fields_t t, flags_t := flags_t t\<rparr>"
    unfolding ft flt by (rule refl)
  show "\<exists>t2. t = (if type_t t0 = FDS_TYPE_TEMPLATE_OPTS then opts_detector t2 else t2)
                     \<lparr>data_length := data_length t\<rparr>
           \<and> t2 = t0\<lparr>fields_t := fields_t t, flags_t := flags_t t\<rparr>"
    by (rule exI [of _ ?t2]) (rule conjI [OF c1 c2])
  show lt: "length (fields_t t) = unat (fields_cnt_total t)"
    using l ft ct by simp
  have flags_eq: "\<forall>j<length r. flags_f (fs' ! j) = flags_f (r ! j)"
    using e lr by simp
  have keys: "map key_f fs' = map key_f r"
    by (rule nth_equalityI) (use l lr e in \<open>simp_all add: key_f_def\<close>)
  have lens: "map length_f fs' = map length_f r"
    by (rule nth_equalityI) (use l lr e in simp_all)
  have lens0: "map length_f r = map length_f ?fs"
    by (rule nth_equalityI) (use lr len0 flag_ext_nth(3) [OF ext] in simp_all)
  show "flags_inv (map key_f (fields_t t)) 0 (fields_t t)"
    unfolding ft keys by (rule flags_inv_cong [OF inv]) (use l lr flags_eq in simp_all)
  show "map key_f (fields_t t) = map key_f (fields_t t0)"
    unfolding ft keys by (rule flag_ext_keys [OF ext])
  show "map length_f (fields_t t) = map length_f (fields_t t0)"
    unfolding ft lens by (rule lens0)
  show "\<forall>j<length (fields_t t).
           flags_f (fields_t t ! j) \<subseteq> ?S
           \<and> (FDS_TFIELD_SCOPE \<in> flags_f (fields_t t ! j) \<longleftrightarrow> j < unat (fields_cnt_scope t))
           \<and> def_f (fields_t t ! j) = None
           \<and> offset (fields_t t ! j) = offset_cursor (take j (fields_t t))"
  proof (intro allI impI)
    fix j assume "j < length (fields_t t)"
    then have j: "j < ?n" using ft l by simp
    then have j0: "j < length ?fs" using len0 by simp
    have a: "flags_f (r ! j) \<subseteq> ?S"
      using flag_ext_nth(8) [OF ext j0] nofl j0 by simp
    have b: "def_f (r ! j) = None"
      using flag_ext_nth(5) [OF ext j0] nodef j0 by simp
    have "map length_f (take j fs') = map length_f (take j r)"
      using lens by (simp add: take_map [symmetric])
    then have c: "offset_cursor (take j r) = offset_cursor (take j fs')"
      by (rule offset_cursor_cong [symmetric])
    show "flags_f (fields_t t ! j) \<subseteq> ?S
           \<and> (FDS_TFIELD_SCOPE \<in> flags_f (fields_t t ! j) \<longleftrightarrow> j < unat (fields_cnt_scope t))
           \<and> def_f (fields_t t ! j) = None
           \<and> offset (fields_t t ! j) = offset_cursor (take j (fields_t t))"
      using a b c scope j lr by (simp add: ft cs e [OF j])
  qed
  show "\<forall>x. x \<in> flags_t t \<longleftrightarrow>
           x = FDS_TEMPLATE_HAS_MULTI_IE
             \<and> (\<exists>j<length (fields_t t). FDS_TFIELD_MULTI_IE \<in> flags_f (fields_t t ! j))
           \<or> x = FDS_TEMPLATE_HAS_DYNAMIC
             \<and> (\<exists>j<length (fields_t t). length_f (fields_t t ! j) = IPFIX_VAR_IE_LENGTH)"
  proof -
    have fe: "\<And>j. j < ?n \<Longrightarrow> flags_f (fs' ! j) = flags_f (r ! j)"
      using e by simp
    have le: "\<And>j. j < ?n \<Longrightarrow> length_f (fs' ! j) = length_f (r ! j)"
      using e by simp
    have "(\<exists>j<?n. FDS_TFIELD_MULTI_IE \<in> flags_f (r ! j))
        \<longleftrightarrow> (\<exists>j<?n. FDS_TFIELD_MULTI_IE \<in> flags_f (fs' ! j))"
      using fe by auto
    moreover have "(\<exists>j<?n. length_f (r ! j) = IPFIX_VAR_IE_LENGTH)
        \<longleftrightarrow> (\<exists>j<?n. length_f (fs' ! j) = IPFIX_VAR_IE_LENGTH)"
      using le by auto
    ultimately show ?thesis
      using F by (simp add: ft flt l)
  qed
  have n16: "?n < 2 ^ 16"
    using unsigned_less [of "fields_cnt_total t0"] by simp
  then have "length r \<le> 65535" using lr by simp
  then have dl: "unat ?dl = min_data_len r"
    using unat_data_len_cursor [of r] by simp
  have "?dl \<le> 65515"
    using small by (simp add: max_rec_size_def not_less)
  then have dl_le: "unat ?dl \<le> 65515"
    by (simp add: word_le_nat_alt)
  have md: "min_data_len fs' = min_data_len r"
    by (rule min_data_len_cong [OF lens])
  have "unat (ucast ?dl :: u16) = unat ?dl"
    using dl_le by (simp add: unsigned_ucast_eq take_bit_nat_eq_self)
  then show "unat (data_length t) = min_data_len (fields_t t)"
    using dl md by (simp add: ft dlt)
  show "min_data_len (fields_t t) \<le> 65515"
    using dl dl_le md by (simp add: ft)
qed

subsection \<open>What a successful parse is made of\<close>

lemma same_frame_refl: "same_frame a a"
  by (simp add: same_frame_def)

lemma same_frame_trans: "same_frame a b \<Longrightarrow> same_frame b c \<Longrightarrow> same_frame a c"
  by (simp add: same_frame_def)

lemma same_frame_update:
  assumes "flags_f v = flags_f (fs ! i)" and "def_f v = def_f (fs ! i)"
    and "offset v = offset (fs ! i)"
  shows "same_frame fs (fs[i := v])"
  unfolding same_frame_def
proof (intro conjI allI impI)
  show "length (fs[i := v]) = length fs" by simp
next
  fix j assume j: "j < length fs"
  show "flags_f (fs[i := v] ! j) = flags_f (fs ! j)"
    and "def_f (fs[i := v] ! j) = def_f (fs ! j)"
    and "offset (fs[i := v] ! j) = offset (fs ! j)"
    using assms j by (cases "i = j"; simp)+
qed

lemma parse_fields_loop_frame:
  assumes "template_parse_fields_loop ptr cnt i pos lr fs = Inr (lr', fs')"
  shows "same_frame fs fs'"
  using assms
proof (induction ptr cnt i pos lr fs rule: template_parse_fields_loop.induct)
  case (1 ptr fields_cnt i pos len_remain fs)
  let ?fs1 = "fs[i := (fs ! i)\<lparr>length_f := ntohs_at ptr (pos + 2)\<rparr>]"
  let ?fs2 = "?fs1[i := (?fs1 ! i)\<lparr>id_f := ntohs_at ptr pos\<rparr>]"
  let ?fs3 = "?fs2[i := (?fs2 ! i)\<lparr>id_f := EN_BIT_MASK (id_f (?fs2 ! i))\<rparr>]"
  let ?fs4 = "?fs3[i := (?fs3 ! i)\<lparr>en := ntohl_at ptr (pos + 4)\<rparr>]"
  have p1: "same_frame fs ?fs1" by (rule same_frame_update) simp_all
  have p12: "same_frame ?fs1 ?fs2" by (rule same_frame_update) simp_all
  have p23: "same_frame ?fs2 ?fs3" by (rule same_frame_update) simp_all
  have p34: "same_frame ?fs3 ?fs4" by (rule same_frame_update) simp_all
  have p2: "same_frame fs ?fs2" by (rule same_frame_trans [OF p1 p12])
  have p4: "same_frame fs ?fs4"
    by (rule same_frame_trans [OF p2 same_frame_trans [OF p23 p34]])
  show ?case
  proof (cases "i < fields_cnt")
    case False
    then have "fs' = fs"
      using "1.prems" by (subst (asm) template_parse_fields_loop.simps) simp
    then show ?thesis by (simp add: same_frame_refl)
  next
    case True
    note lt = this
    have ok: "\<not> len_remain < field_size"
    proof
      assume "len_remain < field_size"
      then have "template_parse_fields_loop ptr fields_cnt i pos len_remain fs = Inl FDS_ERR_FORMAT"
        using lt by (subst template_parse_fields_loop.simps) simp
      with "1.prems" show False by simp
    qed
    show ?thesis
    proof (cases "EN_BIT_GET (id_f (?fs2 ! i)) = 0")
      case True
      have "template_parse_fields_loop ptr fields_cnt i pos len_remain fs
          = template_parse_fields_loop ptr fields_cnt (i + 1) (pos + 4)
              (len_remain - field_size) ?fs2"
        using lt ok True by (subst template_parse_fields_loop.simps) (simp add: Let_def)
      then have "template_parse_fields_loop ptr fields_cnt (i + 1) (pos + 4)
              (len_remain - field_size) ?fs2 = Inr (lr', fs')"
        using "1.prems" by simp
      then have "same_frame ?fs2 fs'"
        by (rule "1.IH"(1) [OF lt ok refl refl True])
      with p2 show ?thesis by (rule same_frame_trans)
    next
      case False
      have ok2: "\<not> len_remain - field_size < field_size"
      proof
        assume "len_remain - field_size < field_size"
        then have "template_parse_fields_loop ptr fields_cnt i pos len_remain fs
                     = Inl FDS_ERR_FORMAT"
          using lt ok False by (subst template_parse_fields_loop.simps) (simp add: Let_def)
        with "1.prems" show False by simp
      qed
      have "template_parse_fields_loop ptr fields_cnt i pos len_remain fs
          = template_parse_fields_loop ptr fields_cnt (i + 1) (pos + 8)
              (len_remain - field_size - field_size) ?fs4"
        using lt ok False ok2 by (subst template_parse_fields_loop.simps) (simp add: Let_def)
      then have "template_parse_fields_loop ptr fields_cnt (i + 1) (pos + 8)
              (len_remain - field_size - field_size) ?fs4 = Inr (lr', fs')"
        using "1.prems" by simp
      then have "same_frame ?fs4 fs'"
        by (rule "1.IH"(2) [OF lt ok refl refl False refl ok2 refl refl])
      with p4 show ?thesis by (rule same_frame_trans)
    qed
  qed
qed

lemma parse_fields_loop_error:
  "template_parse_fields_loop ptr cnt i pos lr fs = Inl e \<Longrightarrow> e = FDS_ERR_FORMAT"
proof (induction ptr cnt i pos lr fs rule: template_parse_fields_loop.induct)
  case (1 ptr fields_cnt i pos len_remain fs)
  let ?fs1 = "fs[i := (fs ! i)\<lparr>length_f := ntohs_at ptr (pos + 2)\<rparr>]"
  let ?fs2 = "?fs1[i := (?fs1 ! i)\<lparr>id_f := ntohs_at ptr pos\<rparr>]"
  let ?fs3 = "?fs2[i := (?fs2 ! i)\<lparr>id_f := EN_BIT_MASK (id_f (?fs2 ! i))\<rparr>]"
  let ?fs4 = "?fs3[i := (?fs3 ! i)\<lparr>en := ntohl_at ptr (pos + 4)\<rparr>]"
  show ?case
  proof (cases "i < fields_cnt \<and> \<not> len_remain < field_size")
    case False
    then have "template_parse_fields_loop ptr fields_cnt i pos len_remain fs
                 = (if i < fields_cnt then Inl FDS_ERR_FORMAT else Inr (len_remain, fs))"
      by (subst template_parse_fields_loop.simps) auto
    with "1.prems" show ?thesis by (simp split: if_splits)
  next
    case True
    then have lt: "i < fields_cnt" and ok: "\<not> len_remain < field_size" by simp_all
    show ?thesis
    proof (cases "EN_BIT_GET (id_f (?fs2 ! i)) = 0")
      case True
      have "template_parse_fields_loop ptr fields_cnt i pos len_remain fs
          = template_parse_fields_loop ptr fields_cnt (i + 1) (pos + 4)
              (len_remain - field_size) ?fs2"
        using lt ok True by (subst template_parse_fields_loop.simps) (simp add: Let_def)
      then have "template_parse_fields_loop ptr fields_cnt (i + 1) (pos + 4)
              (len_remain - field_size) ?fs2 = Inl e"
        using "1.prems" by simp
      then show ?thesis
        by (rule "1.IH"(1) [OF lt ok refl refl True])
    next
      case False
      show ?thesis
      proof (cases "len_remain - field_size < field_size")
        case True
        then have "template_parse_fields_loop ptr fields_cnt i pos len_remain fs
                     = Inl FDS_ERR_FORMAT"
          using lt ok False by (subst template_parse_fields_loop.simps) (simp add: Let_def)
        with "1.prems" show ?thesis by simp
      next
        case ok2: False
        have "template_parse_fields_loop ptr fields_cnt i pos len_remain fs
            = template_parse_fields_loop ptr fields_cnt (i + 1) (pos + 8)
                (len_remain - field_size - field_size) ?fs4"
          using lt ok False ok2 by (subst template_parse_fields_loop.simps) (simp add: Let_def)
        then have "template_parse_fields_loop ptr fields_cnt (i + 1) (pos + 8)
                (len_remain - field_size - field_size) ?fs4 = Inl e"
          using "1.prems" by simp
        then show ?thesis
          by (rule "1.IH"(2) [OF lt ok refl refl False refl ok2 refl refl])
      qed
    qed
  qed
qed

lemma parse_header_error:
  "template_parse_header c ty ptr len = Inl e \<Longrightarrow> e \<noteq> FDS_OK"
  by (auto simp add: template_parse_header_def Let_def template_create_empty_def
        split: if_splits sum.splits)

lemma parse_header_ok:
  assumes "template_parse_header c ty ptr len = Inr (t0, lh)"
  shows "fields_t t0 = replicate (unat (fields_cnt_total t0)) zero_tfield"
    and "flags_t t0 = {}" and "opts_types t0 = {}" and "type_t t0 = ty"
    and "data_length t0 = 0"
    and "unat (fields_cnt_scope t0) \<le> unat (fields_cnt_total t0)"
    and "fields_cnt_total t0 = 0 \<longrightarrow> fields_cnt_scope t0 = 0"
  using assms
  by (auto simp add: template_parse_header_def Let_def template_create_empty_def
        word_le_nat_alt not_less split: if_splits sum.splits)

lemma calc_features_error:
  "template_calc_features t0 = Inl e \<Longrightarrow> e = FDS_ERR_FORMAT"
  by (auto simp add: template_calc_features_def Let_def split: if_splits prod.splits)

lemma parse_ok_cases:
  assumes "fds_template_parse c m ty ptr len tm = (FDS_OK, l, Some t)"
  shows "(fields_cnt_total t = 0 \<and> fields_cnt_scope t = 0 \<and> fields_t t = []
            \<and> flags_t t = {} \<and> opts_types t = {} \<and> data_length t = 0 \<and> type_t t = ty)
         \<or> (\<exists>t0. pre_features t0 \<and> fields_cnt_total t0 \<noteq> 0 \<and> type_t t0 = ty
                \<and> template_calc_features t0 = Inr t)"
proof (cases "template_parse_header c ty ptr len")
  case (Inl e)
  then have "e \<noteq> FDS_OK" by (rule parse_header_error)
  with Inl assms show ?thesis by (simp add: fds_template_parse_def)
next
  case (Inr p)
  obtain t0 lh where p: "p = (t0, lh)" by (cases p)
  note hdr = Inr [unfolded p]
  note h = parse_header_ok [OF hdr]
  show ?thesis
  proof (cases "fields_cnt_total t0 = 0")
    case True
    then have "t = t0\<lparr>raw := take (unat lh) ptr\<rparr>"
      using assms hdr
      by (auto simp add: fds_template_parse_def template_raw_copy_def split: if_splits)
    then show ?thesis
      using h True by simp
  next
    case False
    show ?thesis
    proof (cases "template_parse_fields_loop ptr (unat (fields_cnt_total t0)) 0 (unat lh)
                    (len - lh) (fields_t t0)")
      case (Inl e)
      then have "e = FDS_ERR_FORMAT" by (rule parse_fields_loop_error)
      with Inl assms hdr False show ?thesis
        by (simp add: fds_template_parse_def template_parse_fields_def)
    next
      case (Inr q)
      obtain lr fs where q: "q = (lr, fs)" by (cases q)
      note loop = Inr [unfolded q]
      note fr = parse_fields_loop_frame [OF loop, unfolded same_frame_def]
      let ?t1 = "t0\<lparr>fields_t := fs\<rparr>"
      let ?t2 = "?t1\<lparr>raw := take (unat (lh + (len - lh - lr))) ptr\<rparr>"
      have cf: "template_calc_features ?t2 = Inr t"
        using assms hdr False loop calc_features_error [of ?t2]
        by (auto simp add: fds_template_parse_def template_parse_fields_def
              template_raw_copy_def Let_def split: if_splits sum.splits)
      have "pre_features ?t2"
        using h fr by (simp add: pre_features_def zero_tfield_def)
      moreover have "fields_cnt_total ?t2 \<noteq> 0" using False by simp
      moreover have "type_t ?t2 = ty" using h by simp
      ultimately show ?thesis using cf by blast
    qed
  qed
qed

subsection \<open>The claims on the derived members\<close>

lemma parse_ex_multi:
  "fds_template_parse True True FDS_TYPE_TEMPLATE ex_multi_raw 18 None = (FDS_OK, 16, Some ex_multi)"
  by code_simp

lemma eadj_k_0_iff: "eadj_k K 0 j \<longleftrightarrow> (\<exists>j'<j. K ! j' = K ! j)"
proof
  assume "eadj_k K 0 j"
  then show "\<exists>j'<j. K ! j' = K ! j"
    unfolding eadj_k_def by blast
next
  assume ex: "\<exists>j'<j. K ! j' = K ! j"
  let ?P = "\<lambda>x. x < j \<and> K ! x = K ! j"
  have bound: "\<forall>y. ?P y \<longrightarrow> y \<le> j" by simp
  from ex obtain x where x: "?P x" by blast
  have g: "?P (Greatest ?P)"
    by (rule GreatestI_nat [where b = j], rule x) simp
  have "\<forall>y. Greatest ?P < y \<and> y < j \<longrightarrow> K ! y \<noteq> K ! j"
  proof (intro allI impI notI)
    fix y assume y: "Greatest ?P < y \<and> y < j" and "K ! y = K ! j"
    then have "?P y" by simp
    then have "y \<le> Greatest ?P"
      by (rule Greatest_le_nat [where b = j]) simp
    with y show False by simp
  qed
  with g show "eadj_k K 0 j"
    unfolding eadj_k_def by (intro exI [of _ "Greatest ?P"]) simp
qed

lemma later_k_keys:
  assumes "i < length fs"
  shows "later_k (map key_f fs) i \<longleftrightarrow> later_same fs i"
proof -
  have "later_k (map key_f fs) i
      \<longleftrightarrow> (\<exists>x. i < x \<and> x < length fs \<and> key_f (fs ! x) = key_f (fs ! i))"
    unfolding later_k_def using assms by (auto simp add: nth_map)
  also have "\<dots> \<longleftrightarrow> later_same fs i"
    unfolding later_same_def by (auto simp add: key_f_def Bex_def Suc_le_eq)
  finally show ?thesis .
qed

lemma other_same_iff:
  assumes "i < length fs"
  shows "other_same fs i
     \<longleftrightarrow> later_k (map key_f fs) i \<or> (\<exists>j'<i. map key_f fs ! j' = map key_f fs ! i)"
proof -
  have a: "later_k (map key_f fs) i
      \<longleftrightarrow> (\<exists>x. i < x \<and> x < length fs \<and> key_f (fs ! x) = key_f (fs ! i))"
    unfolding later_k_def using assms by (auto simp add: nth_map)
  have b: "(\<exists>j'<i. map key_f fs ! j' = map key_f fs ! i)
      \<longleftrightarrow> (\<exists>j'<i. key_f (fs ! j') = key_f (fs ! i))"
    using assms by (auto simp add: nth_map)
  have c: "other_same fs i
      \<longleftrightarrow> (\<exists>j. j < length fs \<and> j \<noteq> i \<and> key_f (fs ! j) = key_f (fs ! i))"
    unfolding other_same_def by (auto simp add: key_f_def Bex_def)
  show ?thesis
    unfolding a b c
  proof
    assume "\<exists>j. j < length fs \<and> j \<noteq> i \<and> key_f (fs ! j) = key_f (fs ! i)"
    then obtain j where j: "j < length fs" "j \<noteq> i" "key_f (fs ! j) = key_f (fs ! i)"
      by blast
    show "(\<exists>x. i < x \<and> x < length fs \<and> key_f (fs ! x) = key_f (fs ! i))
        \<or> (\<exists>j'<i. key_f (fs ! j') = key_f (fs ! i))"
    proof (cases "i < j")
      case True
      with j show ?thesis by blast
    next
      case False
      with j(2) have "j < i" by simp
      with j show ?thesis by blast
    qed
  next
    assume "(\<exists>x. i < x \<and> x < length fs \<and> key_f (fs ! x) = key_f (fs ! i))
        \<or> (\<exists>j'<i. key_f (fs ! j') = key_f (fs ! i))"
    then show "\<exists>j. j < length fs \<and> j \<noteq> i \<and> key_f (fs ! j) = key_f (fs ! i)"
    proof
      assume "\<exists>x. i < x \<and> x < length fs \<and> key_f (fs ! x) = key_f (fs ! i)"
      then obtain x where "i < x" "x < length fs" "key_f (fs ! x) = key_f (fs ! i)" by blast
      then show ?thesis by (intro exI [of _ x]) simp
    next
      assume "\<exists>j'<i. key_f (fs ! j') = key_f (fs ! i)"
      then obtain x where "x < i" "key_f (fs ! x) = key_f (fs ! i)" by blast
      then show ?thesis using assms by (intro exI [of _ x]) simp
    qed
  qed
qed

lemma flags_exact:
  assumes inv: "flags_inv (map key_f fs) 0 fs" and i: "i < length fs"
  shows "(FDS_TFIELD_LAST_IE \<in> flags_f (fs ! i) \<longleftrightarrow> \<not> later_same fs i)
       \<and> (FDS_TFIELD_MULTI_IE \<in> flags_f (fs ! i) \<longleftrightarrow> other_same fs i)"
proof -
  have "(FDS_TFIELD_LAST_IE \<in> flags_f (fs ! i) \<longleftrightarrow> \<not> later_k (map key_f fs) i)
      \<and> (FDS_TFIELD_MULTI_IE \<in> flags_f (fs ! i)
            \<longleftrightarrow> later_k (map key_f fs) i \<or> eadj_k (map key_f fs) 0 i)"
    using inv i unfolding flags_inv_def by simp
  then show ?thesis
    by (simp only: eadj_k_0_iff other_same_iff [OF i] later_k_keys [OF i])
qed

lemma last_of_unique:
  assumes inv: "flags_inv (map key_f fs) 0 fs" and i: "i < length fs"
  shows "length (last_of fs i) = 1 \<and> i \<le> hd (last_of fs i)"
proof -
  let ?P = "\<lambda>x. x < length fs \<and> key_f (fs ! x) = key_f (fs ! i)"
  have Pi: "?P i" using i by simp
  have g: "?P (Greatest ?P)"
    by (rule GreatestI_nat [where b = "length fs"], rule Pi) simp
  have ge: "\<And>y. ?P y \<Longrightarrow> y \<le> Greatest ?P"
    by (rule Greatest_le_nat [where b = "length fs"]) simp_all
  let ?g = "Greatest ?P"
  have gl: "?g < length fs" and gk: "key_f (fs ! ?g) = key_f (fs ! i)" using g by simp_all
  have last: "\<And>j. j < length fs \<Longrightarrow>
      (FDS_TFIELD_LAST_IE \<in> flags_f (fs ! j) \<longleftrightarrow> \<not> later_same fs j)"
    using flags_exact [OF inv] by simp
  have later: "\<And>j. later_same fs j
      \<longleftrightarrow> (\<exists>x. j < x \<and> x < length fs \<and> key_f (fs ! x) = key_f (fs ! j))"
    unfolding later_same_def by (auto simp add: key_f_def Bex_def Suc_le_eq)
  have set_eq: "set (last_of fs i) = {?g}"
  proof (intro equalityI subsetI)
    fix j assume "j \<in> set (last_of fs i)"
    then have j: "j < length fs" "key_f (fs ! j) = key_f (fs ! i)"
        "FDS_TFIELD_LAST_IE \<in> flags_f (fs ! j)"
      by (auto simp add: last_of_def key_f_def)
    have nl: "\<not> later_same fs j" using last [OF j(1)] j(3) by simp
    have "j \<le> ?g" using ge j by simp
    moreover have "\<not> j < ?g"
    proof
      assume "j < ?g"
      then have "later_same fs j"
        unfolding later using gl gk j(2) by (intro exI [of _ ?g]) simp
      with nl show False by simp
    qed
    ultimately show "j \<in> {?g}" by simp
  next
    fix j assume "j \<in> {?g}"
    then have j: "j = ?g" by simp
    have "\<not> later_same fs ?g"
    proof
      assume "later_same fs ?g"
      then obtain x where x: "?g < x" "x < length fs" "key_f (fs ! x) = key_f (fs ! ?g)"
        unfolding later by blast
      then have "?P x" using gk by simp
      then have "x \<le> ?g" by (rule ge)
      with x(1) show False by simp
    qed
    then have "FDS_TFIELD_LAST_IE \<in> flags_f (fs ! ?g)"
      using last [OF gl] by simp
    then show "j \<in> set (last_of fs i)"
      using j gl gk by (auto simp add: last_of_def key_f_def)
  qed
  have "distinct (last_of fs i)" by (simp add: last_of_def)
  then have "length (last_of fs i) = card (set (last_of fs i))"
    by (simp add: distinct_card)
  then have "length (last_of fs i) = 1" by (simp add: set_eq)
  moreover have "hd (last_of fs i) \<in> set (last_of fs i)"
    using set_eq by (intro hd_in_set) auto
  moreover have "i \<le> ?g" using ge [OF Pi] .
  ultimately show ?thesis by (simp add: set_eq)
qed

text \<open>
  C1. In every successfully parsed template, field \<open>i\<close> carries LAST_IE exactly if no field
  behind it has its id and enterprise number, it carries MULTI_IE exactly if another field has
  them, and among the fields with its id and enterprise number exactly one carries LAST_IE,
  which is not before field \<open>i\<close> (\<open>last_of\<close> lists them, so it has one element).
\<close>

theorem parse_flags_exact:
  assumes "fds_template_parse calloc_ok malloc_ok type ptr len tmplt = (FDS_OK, len', Some t)"
    and "i < length (fields_t t)"
  shows "(FDS_TFIELD_LAST_IE \<in> flags_f (fields_t t ! i) \<longleftrightarrow> \<not> later_same (fields_t t) i)
       \<and> (FDS_TFIELD_MULTI_IE \<in> flags_f (fields_t t ! i) \<longleftrightarrow> other_same (fields_t t) i)
       \<and> length (last_of (fields_t t) i) = 1
       \<and> i \<le> hd (last_of (fields_t t) i)"
proof -
  from parse_ok_cases [OF assms(1)] assms(2) obtain t0 where
    "pre_features t0" and "template_calc_features t0 = Inr t"
    by auto
  then have inv: "flags_inv (map key_f (fields_t t)) 0 (fields_t t)"
    by (rule template_calc_features_post(3))
  show ?thesis
    using flags_exact [OF inv assms(2)] last_of_unique [OF inv assms(2)] by simp
qed

theorem parse_flags_exact_witness:
  "(FDS_TFIELD_LAST_IE \<in> flags_f (fields_t ex_multi ! 0) \<longleftrightarrow> \<not> later_same (fields_t ex_multi) 0)
   \<and> (FDS_TFIELD_MULTI_IE \<in> flags_f (fields_t ex_multi ! 0) \<longleftrightarrow> other_same (fields_t ex_multi) 0)
   \<and> length (last_of (fields_t ex_multi) 0) = 1
   \<and> 0 \<le> hd (last_of (fields_t ex_multi) 0)"
  by (rule parse_flags_exact [OF parse_ex_multi]) (simp add: ex_multi_def)

lemma var_before_iff: "var_before fs i \<longleftrightarrow> (\<exists>f\<in>set (take i fs). length_f f = IPFIX_VAR_IE_LENGTH)"
  by (simp add: var_before_def IPFIX_VAR_IE_LENGTH_def)

lemma offsets_layout:
  assumes off: "offset (fs ! i) = offset_cursor (take i fs)"
    and dl: "min_data_len fs \<le> 65515"
  shows "if var_before fs i then offset (fs ! i) = 65535
         else unat (offset (fs ! i)) = fixed_sum fs i"
proof (cases "var_before fs i")
  case True
  then have "offset_cursor (take i fs) = IPFIX_VAR_IE_LENGTH"
    unfolding var_before_iff by (rule offset_cursor_var)
  then show ?thesis using True off by (simp add: IPFIX_VAR_IE_LENGTH_def)
next
  case False
  then have fixed: "\<forall>f\<in>set (take i fs). length_f f \<noteq> IPFIX_VAR_IE_LENGTH"
    unfolding var_before_iff by simp
  have "sum_list (map (\<lambda>f. unat (length_f f)) (take i fs)) = min_data_len (take i fs)"
    using min_data_len_fixed [OF fixed] by simp
  also have "\<dots> \<le> min_data_len fs" by (rule min_data_len_take)
  finally have "sum_list (map (\<lambda>f. unat (length_f f)) (take i fs)) < 65535"
    using dl by simp
  then have "unat (offset_cursor (take i fs)) = sum_list (map (\<lambda>f. unat (length_f f)) (take i fs))"
    by (rule offset_cursor_fixed [OF fixed])
  then show ?thesis using False off by (simp add: fixed_sum_def)
qed

lemma var_before_mono: "j \<le> i \<Longrightarrow> var_before fs j \<Longrightarrow> var_before fs i"
  unfolding var_before_def using set_take_subset_set_take [of j i fs] by blast

lemma fixed_sum_mono:
  assumes "j \<le> i"
  shows "fixed_sum fs j \<le> fixed_sum fs i"
proof -
  have "take i fs = take j fs @ take (i - j) (drop j fs)"
    using assms by (metis le_add_diff_inverse take_add)
  then show ?thesis by (simp add: fixed_sum_def)
qed

text \<open>
  C2. In every successfully parsed template the offset of a field that has no field of variable
  length before it is the sum of the lengths of the fields before it, the offset of a field
  behind a field of variable length is 65535, and the offsets do not decrease up to the first
  field of variable length.
\<close>

theorem parse_offsets:
  assumes "fds_template_parse calloc_ok malloc_ok type ptr len tmplt = (FDS_OK, len', Some t)"
    and "i < length (fields_t t)"
  shows "(if var_before (fields_t t) i then offset (fields_t t ! i) = 65535
          else unat (offset (fields_t t ! i)) = fixed_sum (fields_t t) i)
       \<and> (\<forall>j\<in>{0..<i}. \<not> var_before (fields_t t) i
              \<longrightarrow> offset (fields_t t ! j) \<le> offset (fields_t t ! i))"
proof -
  let ?fs = "fields_t t"
  from parse_ok_cases [OF assms(1)] assms(2) obtain t0 where
    t0: "pre_features t0" "template_calc_features t0 = Inr t"
    by auto
  have off: "\<And>j. j < length ?fs \<Longrightarrow> offset (?fs ! j) = offset_cursor (take j ?fs)"
    using template_calc_features_post(4) [OF t0] by simp
  have dl: "min_data_len ?fs \<le> 65515"
    using t0 by (rule template_calc_features_post(9))
  have lay: "\<And>j. j < length ?fs \<Longrightarrow>
      (if var_before ?fs j then offset (?fs ! j) = 65535
       else unat (offset (?fs ! j)) = fixed_sum ?fs j)"
    using offsets_layout [OF off dl] by simp
  have mono: "\<forall>j\<in>{0..<i}. \<not> var_before ?fs i \<longrightarrow> offset (?fs ! j) \<le> offset (?fs ! i)"
  proof (intro ballI impI)
    fix j assume j: "j \<in> {0..<i}" and nv: "\<not> var_before ?fs i"
    then have ji: "j \<le> i" and jl: "j < length ?fs" using assms(2) by simp_all
    have "\<not> var_before ?fs j" using var_before_mono [OF ji] nv by blast
    then have "unat (offset (?fs ! j)) = fixed_sum ?fs j" using lay [OF jl] by simp
    moreover have "unat (offset (?fs ! i)) = fixed_sum ?fs i"
      using lay [OF assms(2)] nv by simp
    ultimately show "offset (?fs ! j) \<le> offset (?fs ! i)"
      using fixed_sum_mono [OF ji, of ?fs] by (simp add: word_le_nat_alt)
  qed
  show ?thesis using lay [OF assms(2)] mono by simp
qed

theorem parse_offsets_witness:
  "(if var_before (fields_t ex_multi) 2 then offset (fields_t ex_multi ! 2) = 65535
    else unat (offset (fields_t ex_multi ! 2)) = fixed_sum (fields_t ex_multi) 2)
   \<and> \<not> var_before (fields_t ex_multi) 2
   \<and> offset (fields_t ex_multi ! 1) \<le> offset (fields_t ex_multi ! 2)"
proof -
  have l: "2 < length (fields_t ex_multi)" by (simp add: ex_multi_def)
  have nv: "\<not> var_before (fields_t ex_multi) 2"
    by (simp add: ex_multi_def var_before_def)
  have "(1 :: nat) \<in> {0..<2}" by simp
  with parse_offsets [OF parse_ex_multi l] nv show ?thesis by blast
qed

text \<open>
  C3. In every successfully parsed template \<open>data_length\<close> is the sum over the fields of the
  length, with 1 for a field of variable length, and the template carries HAS_DYNAMIC exactly
  if a field has the length 65535.
\<close>

theorem parse_data_length:
  assumes "fds_template_parse calloc_ok malloc_ok type ptr len tmplt = (FDS_OK, len', Some t)"
  shows "unat (data_length t) = min_data_len (fields_t t)
       \<and> (FDS_TEMPLATE_HAS_DYNAMIC \<in> flags_t t
            \<longleftrightarrow> (\<exists>f\<in>set (fields_t t). length_f f = 65535))"
proof -
  from parse_ok_cases [OF assms] show ?thesis
  proof
    assume "fields_cnt_total t = 0 \<and> fields_cnt_scope t = 0 \<and> fields_t t = []
            \<and> flags_t t = {} \<and> opts_types t = {} \<and> data_length t = 0 \<and> type_t t = type"
    then show ?thesis by (simp add: min_data_len_def)
  next
    assume "\<exists>t0. pre_features t0 \<and> fields_cnt_total t0 \<noteq> 0 \<and> type_t t0 = type
                \<and> template_calc_features t0 = Inr t"
    then obtain t0 where t0: "pre_features t0" "template_calc_features t0 = Inr t"
      by blast
    have dl: "unat (data_length t) = min_data_len (fields_t t)"
      using t0 by (rule template_calc_features_post(8))
    have "FDS_TEMPLATE_HAS_DYNAMIC \<in> flags_t t
        \<longleftrightarrow> (\<exists>j<length (fields_t t). length_f (fields_t t ! j) = IPFIX_VAR_IE_LENGTH)"
      using template_calc_features_post(7) [OF t0] by simp
    also have "\<dots> \<longleftrightarrow> (\<exists>f\<in>set (fields_t t). length_f f = 65535)"
      unfolding IPFIX_VAR_IE_LENGTH_def by (metis in_set_conv_nth)
    finally show ?thesis using dl by simp
  qed
qed

theorem parse_data_length_witness:
  "unat (data_length ex_multi) = min_data_len (fields_t ex_multi)
   \<and> (FDS_TEMPLATE_HAS_DYNAMIC \<in> flags_t ex_multi
        \<longleftrightarrow> (\<exists>f\<in>set (fields_t ex_multi). length_f f = 65535))"
  by (rule parse_data_length [OF parse_ex_multi])

subsection \<open>Binding of the definitions\<close>

lemma ies_field_preserve:
  assumes "preserve" and "def_f f \<noteq> None"
  shows "ies_field iemgr preserve f = f\<lparr>flags_f := flags_f f - biflags\<rparr>"
  using assms by (simp add: ies_field_def Let_def)

lemma ies_field_None:
  assumes "\<not> (preserve \<and> def_f f \<noteq> None)" and "elem_find iemgr (en f) (id_f f) = None"
  shows "ies_field iemgr preserve f
     = f\<lparr>flags_f := flags_f f - biflags - {FDS_TFIELD_REVERSE, FDS_TFIELD_STRUCTURED},
         def_f := None\<rparr>"
  using assms by (auto simp add: ies_field_def Let_def)

lemma ies_field_Some:
  assumes "\<not> (preserve \<and> def_f f \<noteq> None)" and "elem_find iemgr (en f) (id_f f) = Some d"
  shows "ies_field iemgr preserve f
     = f\<lparr>flags_f := (flags_f f - biflags - {FDS_TFIELD_REVERSE, FDS_TFIELD_STRUCTURED})
              \<union> (if is_reverse d then {FDS_TFIELD_REVERSE} else {})
              \<union> (if is_structured d then {FDS_TFIELD_STRUCTURED} else {}),
         def_f := Some d\<rparr>"
  using assms by (auto simp add: ies_field_def Let_def add_flag_def)

lemma ies_define_step_eq:
  "ies_define_step iemgr preserve i (t, hr, hs)
     = (t\<lparr>fields_t := (fields_t t)[i := ies_field iemgr preserve (fields_t t ! i)]\<rparr>,
        hr \<or> FDS_TFIELD_REVERSE \<in> flags_f (ies_field iemgr preserve (fields_t t ! i)),
        hs \<or> FDS_TFIELD_STRUCTURED \<in> flags_f (ies_field iemgr preserve (fields_t t ! i)))"
proof (cases "preserve \<and> def_f (fields_t t ! i) \<noteq> None")
  case True
  then show ?thesis
    by (auto simp add: ies_define_step_def ies_field_def Let_def)
next
  case False
  note np = this
  show ?thesis
  proof (cases "elem_find iemgr (en (fields_t t ! i)) (id_f (fields_t t ! i))")
    case None
    with np show ?thesis
      by (auto simp add: ies_define_step_def ies_field_def Let_def)
  next
    case (Some d)
    with np show ?thesis
      by (auto simp add: ies_define_step_def ies_field_def Let_def add_flag_def)
  qed
qed

lemma ies_define_fold:
  assumes "k \<le> length (fields_t t)"
  shows "\<exists>fs'. fold (ies_define_step iemgr preserve) [0..<k] (t, False, False)
            = (t\<lparr>fields_t := fs'\<rparr>,
               \<exists>j<k. FDS_TFIELD_REVERSE \<in> flags_f (ies_field iemgr preserve (fields_t t ! j)),
               \<exists>j<k. FDS_TFIELD_STRUCTURED \<in> flags_f (ies_field iemgr preserve (fields_t t ! j)))
          \<and> length fs' = length (fields_t t)
          \<and> (\<forall>j<length (fields_t t).
                fs' ! j = (if j < k then ies_field iemgr preserve (fields_t t ! j)
                           else fields_t t ! j))"
  using assms
proof (induction k)
  case 0
  show ?case by (rule exI [of _ "fields_t t"]) simp
next
  case (Suc k)
  let ?fs = "fields_t t"
  let ?g = "ies_field iemgr preserve"
  from Suc obtain fs' where
    f: "fold (ies_define_step iemgr preserve) [0..<k] (t, False, False)
          = (t\<lparr>fields_t := fs'\<rparr>,
             \<exists>j<k. FDS_TFIELD_REVERSE \<in> flags_f (?g (?fs ! j)),
             \<exists>j<k. FDS_TFIELD_STRUCTURED \<in> flags_f (?g (?fs ! j)))"
    and l: "length fs' = length ?fs"
    and e: "\<forall>j<length ?fs. fs' ! j = (if j < k then ?g (?fs ! j) else ?fs ! j)"
    by auto
  have k: "k < length ?fs" using Suc.prems by simp
  have fk: "fs' ! k = ?fs ! k" using e k by simp
  let ?fs'' = "fs'[k := ?g (?fs ! k)]"
  have hr: "((\<exists>j<k. FDS_TFIELD_REVERSE \<in> flags_f (?g (?fs ! j)))
              \<or> FDS_TFIELD_REVERSE \<in> flags_f (?g (?fs ! k)))
        \<longleftrightarrow> (\<exists>j<Suc k. FDS_TFIELD_REVERSE \<in> flags_f (?g (?fs ! j)))"
    by (auto simp add: less_Suc_eq)
  have hs: "((\<exists>j<k. FDS_TFIELD_STRUCTURED \<in> flags_f (?g (?fs ! j)))
              \<or> FDS_TFIELD_STRUCTURED \<in> flags_f (?g (?fs ! k)))
        \<longleftrightarrow> (\<exists>j<Suc k. FDS_TFIELD_STRUCTURED \<in> flags_f (?g (?fs ! j)))"
    by (auto simp add: less_Suc_eq)
  have "fold (ies_define_step iemgr preserve) [0..<Suc k] (t, False, False)
      = (t\<lparr>fields_t := ?fs''\<rparr>,
         \<exists>j<Suc k. FDS_TFIELD_REVERSE \<in> flags_f (?g (?fs ! j)),
         \<exists>j<Suc k. FDS_TFIELD_STRUCTURED \<in> flags_f (?g (?fs ! j)))"
    unfolding hr [symmetric] hs [symmetric]
    by (simp only: upt_Suc_append [OF le0] fold_append o_apply f fold.simps id_apply
          ies_define_step_eq) (simp add: fk)
  moreover have "length ?fs'' = length ?fs" using l by simp
  moreover have "\<forall>j<length ?fs. ?fs'' ! j = (if j < Suc k then ?g (?fs ! j) else ?fs ! j)"
    using e l k by (auto simp add: nth_list_update less_Suc_eq)
  ultimately show ?case
    by (intro exI [of _ ?fs'']) simp
qed

lemma ies_field_idem:
  "ies_field iemgr preserve (ies_field iemgr preserve f) = ies_field iemgr preserve f"
proof (cases "preserve \<and> def_f f \<noteq> None")
  case True
  then have e: "ies_field iemgr preserve f = f\<lparr>flags_f := flags_f f - biflags\<rparr>"
    by (simp add: ies_field_preserve)
  have "ies_field iemgr preserve (f\<lparr>flags_f := flags_f f - biflags\<rparr>)
          = f\<lparr>flags_f := flags_f f - biflags\<rparr>"
    using True by (simp add: ies_field_preserve)
  then show ?thesis by (simp only: e)
next
  case False
  note np = this
  show ?thesis
  proof (cases "elem_find iemgr (en f) (id_f f)")
    case None
    let ?f' = "f\<lparr>flags_f := flags_f f - biflags - {FDS_TFIELD_REVERSE, FDS_TFIELD_STRUCTURED},
                  def_f := None\<rparr>"
    have e: "ies_field iemgr preserve f = ?f'"
      using np None by (rule ies_field_None)
    have "ies_field iemgr preserve ?f'
        = ?f'\<lparr>flags_f := flags_f ?f' - biflags - {FDS_TFIELD_REVERSE, FDS_TFIELD_STRUCTURED},
              def_f := None\<rparr>"
      by (rule ies_field_None) (use None in simp_all)
    also have "\<dots> = ?f'" by (simp add: Diff_eq Int_ac)
    finally show ?thesis by (simp only: e)
  next
    case (Some d)
    let ?A = "(flags_f f - biflags - {FDS_TFIELD_REVERSE, FDS_TFIELD_STRUCTURED})
              \<union> (if is_reverse d then {FDS_TFIELD_REVERSE} else {})
              \<union> (if is_structured d then {FDS_TFIELD_STRUCTURED} else {})"
    let ?f' = "f\<lparr>flags_f := ?A, def_f := Some d\<rparr>"
    have e: "ies_field iemgr preserve f = ?f'"
      using np Some by (rule ies_field_Some)
    have A1: "?A - biflags = ?A" by (auto simp add: biflags_def)
    have A2: "(?A - biflags - {FDS_TFIELD_REVERSE, FDS_TFIELD_STRUCTURED})
              \<union> (if is_reverse d then {FDS_TFIELD_REVERSE} else {})
              \<union> (if is_structured d then {FDS_TFIELD_STRUCTURED} else {}) = ?A"
      by (auto simp add: biflags_def)
    have "ies_field iemgr preserve ?f' = ?f'"
    proof (cases preserve)
      case True
      then have "ies_field iemgr preserve ?f' = ?f'\<lparr>flags_f := flags_f ?f' - biflags\<rparr>"
        by (intro ies_field_preserve) simp_all
      also have "\<dots> = ?f'" using A1 by simp
      finally show ?thesis .
    next
      case False
      then have "ies_field iemgr preserve ?f'
          = ?f'\<lparr>flags_f := (flags_f ?f' - biflags - {FDS_TFIELD_REVERSE, FDS_TFIELD_STRUCTURED})
              \<union> (if is_reverse d then {FDS_TFIELD_REVERSE} else {})
              \<union> (if is_structured d then {FDS_TFIELD_STRUCTURED} else {}),
            def_f := Some d\<rparr>"
        by (intro ies_field_Some) (use Some in simp_all)
      also have "\<dots> = ?f'" using A2 by simp
      finally show ?thesis .
    qed
    then show ?thesis by (simp only: e)
  qed
qed

lemma ies_field_ext:
  assumes "A \<subseteq> biflags"
  shows "ies_field iemgr preserve (f\<lparr>flags_f := flags_f f \<union> A\<rparr>) = ies_field iemgr preserve f"
proof -
  have "flags_f f \<union> A - biflags = flags_f f - biflags" using assms by auto
  then show ?thesis by (simp add: ies_field_def Let_def)
qed

lemma biflow_step_ext:
  assumes "biflow_step i t = Some t'" and "i < length (fields_t t)"
  shows "\<exists>fs'. t' = t\<lparr>fields_t := fs'\<rparr> \<and> flag_ext biflags (fields_t t) fs'"
proof -
  let ?fs = "fields_t t"
  let ?f1 = "add_flag FDS_TFIEDL_BKEY_COM (?fs ! i)"
  have com: "flag_ext biflags ?fs (?fs[i := ?f1])"
    by (rule flag_ext_update) (simp add: biflags_def)
  have two: "flag_ext biflags ?fs (?fs[i := add_flag F ?f1])" if "F \<in> biflags" for F
  proof -
    have "flag_ext biflags (?fs[i := ?f1]) ((?fs[i := ?f1])[i := add_flag F ((?fs[i := ?f1]) ! i)])"
      using that by (rule flag_ext_update)
    then have "flag_ext biflags (?fs[i := ?f1]) (?fs[i := add_flag F ?f1])"
      using assms(2) by simp
    with com show ?thesis by (rule flag_ext_trans)
  qed
  have src: "flag_ext biflags ?fs (?fs[i := add_flag FDS_TFIELD_BKEY_SRC ?f1])"
    by (rule two) (simp add: biflags_def)
  have dst: "flag_ext biflags ?fs (?fs[i := add_flag FDS_TFIELD_BKEY_DST ?f1])"
    by (rule two) (simp add: biflags_def)
  have "t' = t \<or> t' = t\<lparr>fields_t := ?fs[i := ?f1]\<rparr>
      \<or> t' = t\<lparr>fields_t := ?fs[i := add_flag FDS_TFIELD_BKEY_SRC ?f1]\<rparr>
      \<or> t' = t\<lparr>fields_t := ?fs[i := add_flag FDS_TFIELD_BKEY_DST ?f1]\<rparr>"
    using assms(1)
    by (auto simp add: biflow_step_def Let_def split: if_splits option.splits bool.splits)
  then consider "t' = t" | "t' = t\<lparr>fields_t := ?fs[i := ?f1]\<rparr>"
    | "t' = t\<lparr>fields_t := ?fs[i := add_flag FDS_TFIELD_BKEY_SRC ?f1]\<rparr>"
    | "t' = t\<lparr>fields_t := ?fs[i := add_flag FDS_TFIELD_BKEY_DST ?f1]\<rparr>"
    by blast
  then show ?thesis
  proof cases
    case 1
    show ?thesis
      by (rule exI [of _ ?fs]) (simp add: 1 flag_ext_refl)
  next
    case 2
    show ?thesis
      by (rule exI [of _ "?fs[i := ?f1]"]) (simp add: 2 com)
  next
    case 3
    show ?thesis
      by (rule exI [of _ "?fs[i := add_flag FDS_TFIELD_BKEY_SRC ?f1]"]) (simp add: 3 src)
  next
    case 4
    show ?thesis
      by (rule exI [of _ "?fs[i := add_flag FDS_TFIELD_BKEY_DST ?f1]"]) (simp add: 4 dst)
  qed
qed

lemma biflow_fold_ext:
  assumes "fold (\<lambda>i s. Option.bind s (biflow_step i)) [0..<k] (Some t) = Some t'"
    and "k \<le> length (fields_t t)"
  shows "\<exists>fs'. t' = t\<lparr>fields_t := fs'\<rparr> \<and> flag_ext biflags (fields_t t) fs'"
  using assms
proof (induction k arbitrary: t')
  case 0
  then have "t' = t" by simp
  then show ?case
    by (intro exI [of _ "fields_t t"]) (simp add: flag_ext_refl)
next
  case (Suc k)
  let ?r = "fold (\<lambda>i s. Option.bind s (biflow_step i)) [0..<k] (Some t)"
  have b: "Option.bind ?r (biflow_step k) = Some t'"
    using Suc.prems(1) by simp
  then obtain t'' where r: "?r = Some t''" and st: "biflow_step k t'' = Some t'"
    by (cases ?r) simp_all
  from Suc.IH [OF r] Suc.prems(2) obtain fs'' where
    t'': "t'' = t\<lparr>fields_t := fs''\<rparr>" and e1: "flag_ext biflags (fields_t t) fs''"
    by auto
  have "k < length (fields_t t'')"
    using Suc.prems(2) e1 t'' by (simp add: flag_ext_def)
  from biflow_step_ext [OF st this] obtain fs' where
    t': "t' = t''\<lparr>fields_t := fs'\<rparr>" and e2: "flag_ext biflags (fields_t t'') fs'"
    by blast
  have "flag_ext biflags (fields_t t) fs'"
    using e1 e2 t'' by (auto intro: flag_ext_trans)
  moreover have "t' = t\<lparr>fields_t := fs'\<rparr>" using t' t'' by simp
  ultimately show ?case by blast
qed

lemma template_ies_biflow_ext:
  assumes "template_ies_biflow t = Some t'" and "wf_template t"
  shows "\<exists>fs'. t' = t\<lparr>fields_t := fs'\<rparr> \<and> flag_ext biflags (fields_t t) fs'"
proof -
  have "fold (\<lambda>i s. Option.bind s (biflow_step i)) [0..<unat (fields_cnt_total t)] (Some t)
          = Some t'"
    using assms(1) by (simp add: template_ies_biflow_def split: if_splits)
  then show ?thesis
    by (rule biflow_fold_ext) (use assms(2) in \<open>simp add: wf_template_def\<close>)
qed

lemma ex_nth_iff_bex: "(\<exists>j<length xs. P (xs ! j)) \<longleftrightarrow> (\<exists>x\<in>set xs. P x)"
  by (metis in_set_conv_nth)

lemma ies_flags_idem: "ies_flags hr hs (ies_flags hr hs F) = ies_flags hr hs F"
  by (auto simp add: ies_flags_def)

lemma ies_template_flags_eq:
  "ies_template_flags a b t = t\<lparr>flags_t := ies_flags a b (flags_t t)\<rparr>"
  by (cases a; cases b; simp add: ies_template_flags_def ies_flags_def Let_def;
      rule arg_cong [where f = "\<lambda>F. t\<lparr>flags_t := F\<rparr>"]; auto)

lemma ies_define_eq:
  assumes wf: "wf_template t" and np: "\<not> (Option.is_none iemgr \<and> preserve)"
  shows "fds_template_ies_define t iemgr preserve
     = (if \<exists>f\<in>set (fields_t (ies_loop_result iemgr preserve t)). FDS_TFIELD_REVERSE \<in> flags_f f
        then template_ies_biflow (ies_loop_result iemgr preserve t)
        else Some (ies_loop_result iemgr preserve t))"
proof -
  let ?fs = "fields_t t"
  let ?n = "unat (fields_cnt_total t)"
  let ?g = "ies_field iemgr preserve"
  let ?hr = "\<exists>j<?n. FDS_TFIELD_REVERSE \<in> flags_f (?g (?fs ! j))"
  let ?hs = "\<exists>j<?n. FDS_TFIELD_STRUCTURED \<in> flags_f (?g (?fs ! j))"
  have len: "length ?fs = ?n" using wf by (simp add: wf_template_def)
  then have k: "?n \<le> length ?fs" by simp
  from ies_define_fold [OF k, of iemgr preserve] obtain fs' where
    f: "fold (ies_define_step iemgr preserve) [0..<?n] (t, False, False)
          = (t\<lparr>fields_t := fs'\<rparr>, ?hr, ?hs)"
    and l: "length fs' = length ?fs"
    and e: "\<forall>j<length ?fs. fs' ! j = (if j < ?n then ?g (?fs ! j) else ?fs ! j)"
    by blast
  have fs': "fs' = map ?g ?fs"
    by (rule nth_equalityI) (use l e len in simp_all)
  have hr: "?hr \<longleftrightarrow> (\<exists>f\<in>set (map ?g ?fs). FDS_TFIELD_REVERSE \<in> flags_f f)"
    unfolding len [symmetric]
    using ex_nth_iff_bex [of ?fs "\<lambda>f. FDS_TFIELD_REVERSE \<in> flags_f (?g f)"] by simp
  have hs: "?hs \<longleftrightarrow> (\<exists>f\<in>set (map ?g ?fs). FDS_TFIELD_STRUCTURED \<in> flags_f f)"
    unfolding len [symmetric]
    using ex_nth_iff_bex [of ?fs "\<lambda>f. FDS_TFIELD_STRUCTURED \<in> flags_f (?g f)"] by simp
  have t3: "ies_template_flags ?hr ?hs (t\<lparr>fields_t := fs'\<rparr>) = ies_loop_result iemgr preserve t"
    unfolding hr hs fs' by (simp add: ies_template_flags_eq ies_loop_result_def Let_def)
  have r: "(\<exists>f\<in>set (fields_t (ies_loop_result iemgr preserve t)). FDS_TFIELD_REVERSE \<in> flags_f f)
        \<longleftrightarrow> ?hr"
    unfolding hr by (simp add: ies_loop_result_def Let_def)
  have "fds_template_ies_define t iemgr preserve
      = (if ?hr then template_ies_biflow (ies_template_flags ?hr ?hs (t\<lparr>fields_t := fs'\<rparr>))
         else Some (ies_template_flags ?hr ?hs (t\<lparr>fields_t := fs'\<rparr>)))"
    using np by (simp only: fds_template_ies_define_def f Let_def prod.case if_False)
  then show ?thesis
    unfolding t3 r .
qed

lemma ies_loop_result_idem:
  "ies_loop_result iemgr preserve (ies_loop_result iemgr preserve t)
     = ies_loop_result iemgr preserve t"
  by (simp add: ies_loop_result_def Let_def ies_field_idem ies_flags_idem o_def)

lemma ies_loop_result_ext:
  assumes "flag_ext biflags (fields_t (ies_loop_result iemgr preserve t)) fs'"
  shows "ies_loop_result iemgr preserve ((ies_loop_result iemgr preserve t)\<lparr>fields_t := fs'\<rparr>)
           = ies_loop_result iemgr preserve t"
proof -
  let ?g = "ies_field iemgr preserve"
  let ?t3 = "ies_loop_result iemgr preserve t"
  let ?fs1 = "fields_t ?t3"
  have len: "length fs' = length ?fs1" using assms by (simp add: flag_ext_def)
  have "map ?g fs' = map ?g ?fs1"
  proof (rule nth_equalityI)
    show "length (map ?g fs') = length (map ?g ?fs1)" using len by simp
  next
    fix j assume "j < length (map ?g fs')"
    then have j: "j < length ?fs1" using len by simp
    then obtain A where A: "A \<subseteq> biflags" "fs' ! j = (?fs1 ! j)\<lparr>flags_f := flags_f (?fs1 ! j) \<union> A\<rparr>"
      using assms unfolding flag_ext_def by blast
    have "?g (fs' ! j) = ?g (?fs1 ! j)"
      unfolding A(2) using A(1) by (rule ies_field_ext)
    then show "map ?g fs' ! j = map ?g ?fs1 ! j"
      using j len by simp
  qed
  then have "ies_loop_result iemgr preserve (?t3\<lparr>fields_t := fs'\<rparr>)
      = ies_loop_result iemgr preserve ?t3"
    by (simp add: ies_loop_result_def [of iemgr preserve "?t3\<lparr>fields_t := fs'\<rparr>"]
          ies_loop_result_def [of iemgr preserve ?t3] Let_def)
  then show ?thesis by (simp only: ies_loop_result_idem)
qed

lemma wf_ies_loop_result: "wf_template t \<Longrightarrow> wf_template (ies_loop_result iemgr preserve t)"
  by (simp add: wf_template_def ies_loop_result_def Let_def)

text \<open>
  C8. \<^verbatim>\<open>fds_template_ies_define\<close> is idempotent: when a call on a template that holds as
  many fields as its field count says returns, with the template \<open>t1\<close>, a second call with the
  same dictionary and the same \<open>preserve\<close> returns as well and leaves \<open>t1\<close> as it is, with every
  flag of every field, every definition and the template flags.
\<close>

theorem ies_define_idempotent:
  assumes wf: "wf_template t"
    and first: "fds_template_ies_define t iemgr preserve = Some t1"
  shows "fds_template_ies_define t1 iemgr preserve = Some t1"
proof (cases "Option.is_none iemgr \<and> preserve")
  case True
  then have "t1 = t" using first by (simp add: fds_template_ies_define_def)
  with True show ?thesis by (simp add: fds_template_ies_define_def)
next
  case False
  let ?t3 = "ies_loop_result iemgr preserve t"
  let ?hr = "\<exists>f\<in>set (fields_t ?t3). FDS_TFIELD_REVERSE \<in> flags_f f"
  have wf3: "wf_template ?t3" using wf by (rule wf_ies_loop_result)
  have eq1: "fds_template_ies_define t iemgr preserve
      = (if ?hr then template_ies_biflow ?t3 else Some ?t3)"
    using wf False by (rule ies_define_eq)
  show ?thesis
  proof (cases ?hr)
    case hr: False
    then have t1: "t1 = ?t3" using first eq1 by simp
    have "fds_template_ies_define ?t3 iemgr preserve
      = (if \<exists>f\<in>set (fields_t (ies_loop_result iemgr preserve ?t3)). FDS_TFIELD_REVERSE \<in> flags_f f
         then template_ies_biflow (ies_loop_result iemgr preserve ?t3)
         else Some (ies_loop_result iemgr preserve ?t3))"
      using wf3 False by (rule ies_define_eq)
    then show ?thesis
      using hr unfolding t1 ies_loop_result_idem by simp
  next
    case hr: True
    then have bi: "template_ies_biflow ?t3 = Some t1" using first eq1 by simp
    from template_ies_biflow_ext [OF bi wf3] obtain fs' where
      t1: "t1 = ?t3\<lparr>fields_t := fs'\<rparr>" and ext: "flag_ext biflags (fields_t ?t3) fs'"
      by blast
    have wf1: "wf_template t1"
      using wf3 ext unfolding t1 by (simp add: wf_template_def flag_ext_def)
    have again: "ies_loop_result iemgr preserve t1 = ?t3"
      unfolding t1 using ext by (rule ies_loop_result_ext)
    have "fds_template_ies_define t1 iemgr preserve
      = (if \<exists>f\<in>set (fields_t (ies_loop_result iemgr preserve t1)). FDS_TFIELD_REVERSE \<in> flags_f f
         then template_ies_biflow (ies_loop_result iemgr preserve t1)
         else Some (ies_loop_result iemgr preserve t1))"
      using wf1 False by (rule ies_define_eq)
    then show ?thesis
      unfolding again using hr bi by simp
  qed
qed

lemma ies_define_ex_t:
  "fds_template_ies_define ex_t (Some ex_iemgr) False = Some ex_t_defined"
  by code_simp

theorem ies_define_idempotent_witness:
  "fds_template_ies_define ex_t_defined (Some ex_iemgr) False = Some ex_t_defined"
  by (rule ies_define_idempotent [OF _ ies_define_ex_t]) (simp add: wf_template_def ex_t_def)

subsection \<open>The invariant of the flow key flags\<close>

lemma parse_ok_wf_fkey:
  assumes "fds_template_parse calloc_ok malloc_ok type ptr len tmplt = (FDS_OK, len', Some t)"
  shows "wf_template t \<and> fkey_inv t"
proof -
  from parse_ok_cases [OF assms] show ?thesis
  proof
    assume "fields_cnt_total t = 0 \<and> fields_cnt_scope t = 0 \<and> fields_t t = []
            \<and> flags_t t = {} \<and> opts_types t = {} \<and> data_length t = 0 \<and> type_t t = type"
    then show ?thesis by (simp add: wf_template_def fkey_inv_def)
  next
    assume "\<exists>t0. pre_features t0 \<and> fields_cnt_total t0 \<noteq> 0 \<and> type_t t0 = type
                \<and> template_calc_features t0 = Inr t"
    then obtain t0 where t0: "pre_features t0" "template_calc_features t0 = Inr t"
      by blast
    have wf: "wf_template t"
      using template_calc_features_post(2) [OF t0] by (simp add: wf_template_def)
    have "\<And>j. j < length (fields_t t) \<Longrightarrow> FDS_TFIELD_FLOW_KEY \<notin> flags_f (fields_t t ! j)"
      using template_calc_features_post(4) [OF t0] by auto
    then have "\<not> (\<exists>j<length (fields_t t). FDS_TFIELD_FLOW_KEY \<in> flags_f (fields_t t ! j))"
      by blast
    then have nof: "\<not> (\<exists>f\<in>set (fields_t t). FDS_TFIELD_FLOW_KEY \<in> flags_f f)"
      using ex_nth_iff_bex [of "fields_t t" "\<lambda>f. FDS_TFIELD_FLOW_KEY \<in> flags_f f"] by simp
    have "FDS_TEMPLATE_HAS_FKEY \<notin> flags_t t"
      using template_calc_features_post(7) [OF t0] by simp
    with nof wf show ?thesis by (simp add: fkey_inv_def)
  qed
qed

lemma ies_field_flow_key:
  "FDS_TFIELD_FLOW_KEY \<in> flags_f (ies_field iemgr preserve f) \<longleftrightarrow> FDS_TFIELD_FLOW_KEY \<in> flags_f f"
proof (cases "preserve \<and> def_f f \<noteq> None")
  case True
  then show ?thesis by (simp add: ies_field_preserve biflags_def)
next
  case False
  show ?thesis
  proof (cases "elem_find iemgr (en f) (id_f f)")
    case None
    show ?thesis by (simp add: ies_field_None [OF False None] biflags_def)
  next
    case (Some d)
    show ?thesis by (simp add: ies_field_Some [OF False Some] biflags_def)
  qed
qed

lemma flag_ext_flow_key:
  assumes "flag_ext biflags fs fs'"
  shows "(\<exists>f\<in>set fs'. FDS_TFIELD_FLOW_KEY \<in> flags_f f)
     \<longleftrightarrow> (\<exists>f\<in>set fs. FDS_TFIELD_FLOW_KEY \<in> flags_f f)"
proof -
  have len: "length fs' = length fs" using assms by (simp add: flag_ext_def)
  have "FDS_TFIELD_FLOW_KEY \<in> flags_f (fs' ! j) \<longleftrightarrow> FDS_TFIELD_FLOW_KEY \<in> flags_f (fs ! j)"
    if "j < length fs" for j
    using flag_ext_nth(7,8) [OF assms that] by (auto simp add: biflags_def)
  then have "(\<exists>j<length fs'. FDS_TFIELD_FLOW_KEY \<in> flags_f (fs' ! j))
     \<longleftrightarrow> (\<exists>j<length fs. FDS_TFIELD_FLOW_KEY \<in> flags_f (fs ! j))"
    unfolding len by auto
  then show ?thesis
    using ex_nth_iff_bex [of fs' "\<lambda>f. FDS_TFIELD_FLOW_KEY \<in> flags_f f"]
      ex_nth_iff_bex [of fs "\<lambda>f. FDS_TFIELD_FLOW_KEY \<in> flags_f f"] by simp
qed

lemma ies_loop_result_fkey:
  assumes "fkey_inv t"
  shows "fkey_inv (ies_loop_result iemgr preserve t)"
  using assms
  by (simp add: fkey_inv_def ies_loop_result_def Let_def ies_flags_def ies_field_flow_key)

lemma ies_define_wf_fkey:
  assumes wf: "wf_template t" and inv: "fkey_inv t"
    and d: "fds_template_ies_define t iemgr preserve = Some t'"
  shows "wf_template t' \<and> fkey_inv t'"
proof (cases "Option.is_none iemgr \<and> preserve")
  case True
  then have "t' = t" using d by (simp add: fds_template_ies_define_def)
  with wf inv show ?thesis by simp
next
  case False
  let ?t3 = "ies_loop_result iemgr preserve t"
  have wf3: "wf_template ?t3" using wf by (rule wf_ies_loop_result)
  have inv3: "fkey_inv ?t3" using inv by (rule ies_loop_result_fkey)
  have eq1: "fds_template_ies_define t iemgr preserve
      = (if \<exists>f\<in>set (fields_t ?t3). FDS_TFIELD_REVERSE \<in> flags_f f
         then template_ies_biflow ?t3 else Some ?t3)"
    using wf False by (rule ies_define_eq)
  show ?thesis
  proof (cases "\<exists>f\<in>set (fields_t ?t3). FDS_TFIELD_REVERSE \<in> flags_f f")
    case False
    then have "t' = ?t3" using d eq1 by simp
    with wf3 inv3 show ?thesis by simp
  next
    case True
    then have bi: "template_ies_biflow ?t3 = Some t'" using d eq1 by simp
    from template_ies_biflow_ext [OF bi wf3] obtain fs' where
      t': "t' = ?t3\<lparr>fields_t := fs'\<rparr>" and ext: "flag_ext biflags (fields_t ?t3) fs'"
      by blast
    have "wf_template t'"
      using wf3 ext unfolding t' by (simp add: wf_template_def flag_ext_def)
    moreover have "fkey_inv t'"
      using inv3 flag_ext_flow_key [OF ext] unfolding t' by (simp add: fkey_inv_def)
    ultimately show ?thesis by simp
  qed
qed

lemma flowkey_define_wf_fkey:
  assumes wf: "wf_template t" and inv: "fkey_inv t"
    and d: "fds_template_flowkey_define t k = (rc, t')"
  shows "wf_template t' \<and> fkey_inv t'"
proof (cases "fds_template_flowkey_applicable t k = FDS_OK")
  case False
  then have "t' = t" using d by (simp add: fds_template_flowkey_define_def Let_def)
  with wf inv show ?thesis by simp
next
  case True
  let ?n = "unat (fields_cnt_total t)"
  have hi: "\<forall>i. bit k i \<longrightarrow> i < ?n"
    using True by (simp add: flowkey_applicable_iff)
  define t1 where "t1 = (if k \<noteq> 0
                  then t\<lparr>flags_t := insert FDS_TEMPLATE_HAS_FKEY (flags_t t)\<rparr>
                  else t\<lparr>flags_t := flags_t t - {FDS_TEMPLATE_HAS_FKEY}\<rparr>)"
  have t1n: "unat (fields_cnt_total t1) = ?n" and t1f: "fields_t t1 = fields_t t"
    and t1k: "FDS_TEMPLATE_HAS_FKEY \<in> flags_t t1 \<longleftrightarrow> k \<noteq> 0"
    and t1c: "fields_cnt_total t1 = fields_cnt_total t"
    by (simp_all add: t1_def)
  have len: "length (fields_t t1) = ?n"
    using wf by (simp add: wf_template_def t1f)
  then have le: "?n \<le> length (fields_t t1)" by simp
  from flowkey_define_fold [OF le, of k] obtain fs' where
    f: "fold flowkey_define_step [0..<?n] (t1, k) = (t1\<lparr>fields_t := fs'\<rparr>, drop_bit ?n k)"
    and l: "length fs' = length (fields_t t1)"
    and e: "\<forall>i<length (fields_t t1).
              fs' ! i = (if i < ?n then set_flow_key k i (fields_t t1 ! i) else fields_t t1 ! i)"
    by blast
  have "fds_template_flowkey_define t k = (FDS_OK, t1\<lparr>fields_t := fs'\<rparr>)"
    using True f by (simp add: fds_template_flowkey_define_def Let_def t1_def [symmetric] t1n)
  then have t': "t' = t1\<lparr>fields_t := fs'\<rparr>" using d by simp
  have wf': "wf_template t'"
    unfolding t' using l len t1c by (simp add: wf_template_def)
  have fl: "FDS_TFIELD_FLOW_KEY \<in> flags_f (fs' ! j) \<longleftrightarrow> bit k j" if "j < length fs'" for j
    using e that l len by (simp add: set_flow_key_def add_flag_def del_flag_def)
  have "(\<exists>j<length fs'. FDS_TFIELD_FLOW_KEY \<in> flags_f (fs' ! j)) \<longleftrightarrow> k \<noteq> 0"
  proof
    assume "\<exists>j<length fs'. FDS_TFIELD_FLOW_KEY \<in> flags_f (fs' ! j)"
    then obtain j where "bit k j" using fl by blast
    then show "k \<noteq> 0" by auto
  next
    assume "k \<noteq> 0"
    then obtain j where j: "bit k j"
      by (auto simp add: bit_eq_iff)
    then have "j < length fs'" using hi l len by simp
    with j fl show "\<exists>j<length fs'. FDS_TFIELD_FLOW_KEY \<in> flags_f (fs' ! j)" by blast
  qed
  then have "(\<exists>f\<in>set fs'. FDS_TFIELD_FLOW_KEY \<in> flags_f f) \<longleftrightarrow> k \<noteq> 0"
    using ex_nth_iff_bex [of fs' "\<lambda>f. FDS_TFIELD_FLOW_KEY \<in> flags_f f"] by simp
  then have "fkey_inv t'"
    unfolding t' using t1k by (simp add: fkey_inv_def)
  with wf' show ?thesis by simp
qed

lemma flowkey_cmp_zero:
  "fds_template_flowkey_cmp t 0 = 0 \<longleftrightarrow> FDS_TEMPLATE_HAS_FKEY \<notin> flags_t t"
  by (simp add: fds_template_flowkey_cmp_def Let_def)

text \<open>
  C9. Every template that the interface produces holds as many fields as its field count says
  and satisfies the invariant: it carries HAS_FKEY exactly if one of its fields carries
  FLOW_KEY. Hence \<^verbatim>\<open>fds_template_flowkey_cmp\<close> with the key 0, which looks at the template
  flag only, returns 0 exactly if no field carries FLOW_KEY.
\<close>

theorem reachable_fkey_inv:
  assumes "reachable t"
  shows "wf_template t \<and> fkey_inv t
       \<and> (fds_template_flowkey_cmp t 0 = 0
            \<longleftrightarrow> \<not> (\<exists>f\<in>set (fields_t t). FDS_TFIELD_FLOW_KEY \<in> flags_f f))"
proof -
  have "wf_template t \<and> fkey_inv t"
    using assms
  proof (induction rule: reachable.induct)
    case (parse calloc_ok malloc_ok type ptr len tmplt len' t)
    then show ?case by (rule parse_ok_wf_fkey)
  next
    case (copy t main_ok raw_ok t')
    then have "t' = t"
      by (simp add: fds_template_copy_def split: if_splits)
    with copy show ?case by simp
  next
    case (ies_define t iemgr preserve t')
    then show ?case using ies_define_wf_fkey by blast
  next
    case (flowkey_define t flowkey ret_code t')
    then show ?case using flowkey_define_wf_fkey by blast
  qed
  then show ?thesis
    by (simp add: flowkey_cmp_zero fkey_inv_def)
qed

lemma parse_ex_t:
  "fds_template_parse True True FDS_TYPE_TEMPLATE [1, 0, 0, 2, 0, 8, 0, 4, 0, 12, 0, 4] 12 None
     = (FDS_OK, 12, Some ex_t)"
  by code_simp

lemma flowkey_define_ex_t:
  "fds_template_flowkey_define ex_t 2
     = (FDS_OK, ex_t\<lparr>flags_t := {FDS_TEMPLATE_HAS_FKEY},
                    fields_t := [fields_t ex_t ! 0,
                                 add_flag FDS_TFIELD_FLOW_KEY (fields_t ex_t ! 1)]\<rparr>)"
  by code_simp

theorem reachable_fkey_inv_witness:
  "wf_template (snd (fds_template_flowkey_define ex_t 2))
   \<and> fkey_inv (snd (fds_template_flowkey_define ex_t 2))
   \<and> fds_template_flowkey_cmp (snd (fds_template_flowkey_define ex_t 2)) 0 = 1"
proof -
  have "reachable ex_t"
    by (rule reachable.parse [OF parse_ex_t])
  moreover have "fds_template_flowkey_define ex_t 2
      = (FDS_OK, snd (fds_template_flowkey_define ex_t 2))"
    by (simp add: flowkey_define_ex_t)
  ultimately have r: "reachable (snd (fds_template_flowkey_define ex_t 2))"
    by (rule reachable.flowkey_define)
  have "fds_template_flowkey_cmp (snd (fds_template_flowkey_define ex_t 2)) 0 = 1"
    by (simp add: flowkey_define_ex_t fds_template_flowkey_cmp_def)
  with reachable_fkey_inv [OF r] show ?thesis by simp
qed

lemma flowkey_cmp_zero_needs_inv:
  "\<not> fkey_inv ex_t_broken \<and> fds_template_flowkey_cmp ex_t_broken 0 = 0
   \<and> (\<exists>f\<in>set (fields_t ex_t_broken). FDS_TFIELD_FLOW_KEY \<in> flags_f f)"
  by (simp add: ex_t_broken_def ex_t_def fkey_inv_def flowkey_cmp_zero add_flag_def)

subsection \<open>The detector of the Exporting Process Reliability Statistics template\<close>

lemma cfind_loop_find:
  assumes "n = length fs"
  shows "map_option (nth fs) (cfind_loop fs n e d i)
           = List.find (\<lambda>f. id_f f = d \<and> en f = e) (drop i fs)"
  using assms
proof (induction fs n e d i rule: cfind_loop.induct)
  case (1 fs field_cnt e d i)
  show ?case
  proof (cases "i < field_cnt")
    case False
    then show ?thesis
      using "1.prems" by (subst cfind_loop.simps) simp
  next
    case True
    then have dr: "drop i fs = fs ! i # drop (i + 1) fs"
      using "1.prems" by (simp add: Cons_nth_drop_Suc)
    show ?thesis
    proof (cases "id_f (fs ! i) \<noteq> d \<or> en (fs ! i) \<noteq> e")
      case c: True
      have "cfind_loop fs field_cnt e d i = cfind_loop fs field_cnt e d (i + 1)"
        using True c by (subst cfind_loop.simps) simp
      then show ?thesis
        using "1.IH" [OF True c "1.prems"] c by (auto simp add: dr)
    next
      case c: False
      have "cfind_loop fs field_cnt e d i = Some i"
        using True c by (subst cfind_loop.simps) simp
      then show ?thesis
        using c by (simp add: dr)
    qed
  qed
qed

lemma has_required_scan_iff:
  assumes "n = length fs" and "i \<le> n"
  shows "has_required_scan fs n rec i = n
     \<longleftrightarrow> \<not> (\<exists>f\<in>set (drop i fs). id_f f = fst rec \<and> en f = snd rec)"
  using assms
proof (induction fs n rec i rule: has_required_scan.induct)
  case (1 fs idx_end rec field_idx)
  show ?case
  proof (cases "field_idx < idx_end")
    case False
    then have "field_idx = idx_end" using "1.prems" by simp
    then show ?thesis
      using "1.prems" by (subst has_required_scan.simps) simp
  next
    case True
    then have dr: "drop field_idx fs = fs ! field_idx # drop (field_idx + 1) fs"
      using "1.prems" by (simp add: Cons_nth_drop_Suc)
    show ?thesis
    proof (cases "fst rec \<noteq> id_f (fs ! field_idx) \<or> snd rec \<noteq> en (fs ! field_idx)")
      case c: True
      have "has_required_scan fs idx_end rec field_idx
              = has_required_scan fs idx_end rec (field_idx + 1)"
        using True c by (subst has_required_scan.simps) simp
      moreover have "has_required_scan fs idx_end rec (field_idx + 1) = idx_end
          \<longleftrightarrow> \<not> (\<exists>f\<in>set (drop (field_idx + 1) fs). id_f f = fst rec \<and> en f = snd rec)"
        using "1.IH" [OF True c "1.prems"(1)] True by simp
      ultimately show ?thesis
        using c by (auto simp add: dr)
    next
      case c: False
      have "has_required_scan fs idx_end rec field_idx = field_idx"
        using True c by (subst has_required_scan.simps) simp
      then show ?thesis
        using c True by (auto simp add: dr)
    qed
  qed
qed

lemma opts_has_required_iff:
  assumes "wf_template t" and "unat (fields_cnt_scope t) \<le> unat (fields_cnt_total t)"
  shows "opts_has_required t recs
     \<longleftrightarrow> (\<forall>rec\<in>set recs. \<exists>f\<in>set (drop (unat (fields_cnt_scope t)) (fields_t t)).
            id_f f = fst rec \<and> en f = snd rec)"
proof (induction recs)
  case Nil
  show ?case by simp
next
  case (Cons rec recs)
  have n: "unat (fields_cnt_total t) = length (fields_t t)"
    using assms(1) by (simp add: wf_template_def)
  have "has_required_scan (fields_t t) (unat (fields_cnt_total t)) rec (unat (fields_cnt_scope t))
          = unat (fields_cnt_total t)
     \<longleftrightarrow> \<not> (\<exists>f\<in>set (drop (unat (fields_cnt_scope t)) (fields_t t)).
            id_f f = fst rec \<and> en f = snd rec)"
    using n assms(2) by (rule has_required_scan_iff)
  then show ?case
    using Cons.IH by (simp add: Let_def)
qed

lemma obs_time_loop_iff:
  assumes "n = length fs" and "matches \<le> 2"
  shows "obs_time_loop fs n i matches
     \<longleftrightarrow> matches + length (filter (\<lambda>f. en f = 0 \<and> 322 \<le> id_f f \<and> id_f f \<le> 325) (drop i fs)) = 2"
  using assms
proof (induction fs n i matches rule: obs_time_loop.induct)
  case (1 fs fields_end i matches)
  let ?P = "\<lambda>f. en f = 0 \<and> 322 \<le> id_f f \<and> id_f f \<le> 325"
  show ?case
  proof (cases "i < fields_end")
    case False
    then show ?thesis
      using "1.prems" by (subst obs_time_loop.simps) simp
  next
    case True
    then have dr: "drop i fs = fs ! i # drop (i + 1) fs"
      using "1.prems" by (simp add: Cons_nth_drop_Suc)
    show ?thesis
    proof (cases "en (fs ! i) \<noteq> 0")
      case c1: True
      have "obs_time_loop fs fields_end i matches = obs_time_loop fs fields_end (i + 1) matches"
        using True c1 by (subst obs_time_loop.simps) simp
      moreover have "\<not> ?P (fs ! i)" using c1 by simp
      then have "length (filter ?P (drop i fs)) = length (filter ?P (drop (i + 1) fs))"
        unfolding dr by (simp only: filter.simps if_False)
      ultimately show ?thesis
        using "1.IH"(1) [OF True c1 "1.prems"] by (simp only:)
    next
      case c1: False
      show ?thesis
      proof (cases "id_f (fs ! i) < 322 \<or> id_f (fs ! i) > 325")
        case c2: True
        have "obs_time_loop fs fields_end i matches
                = obs_time_loop fs fields_end (i + 1) matches"
          using True c1 c2 by (subst obs_time_loop.simps) simp
        moreover have "\<not> ?P (fs ! i)" using c2 by (auto simp add: not_le)
        then have "length (filter ?P (drop i fs)) = length (filter ?P (drop (i + 1) fs))"
          unfolding dr by (simp only: filter.simps if_False)
        ultimately show ?thesis
          using "1.IH"(2) [OF True c1 c2 "1.prems"] by (simp only:)
      next
        case c2: False
        then have P: "?P (fs ! i)" using c1 by (simp add: not_less)
        then have cnt: "length (filter ?P (drop i fs))
                          = Suc (length (filter ?P (drop (i + 1) fs)))"
          unfolding dr by (simp only: filter.simps if_True list.size(4)) simp
        show ?thesis
        proof (cases "matches + 1 > 2")
          case c3: True
          have "obs_time_loop fs fields_end i matches = False"
            using True c1 c2 c3 by (subst obs_time_loop.simps) (simp add: Let_def)
          then show ?thesis
            using c3 unfolding cnt by simp
        next
          case c3: False
          have "obs_time_loop fs fields_end i matches
                  = obs_time_loop fs fields_end (i + 1) (matches + 1)"
            using True c1 c2 c3 by (subst obs_time_loop.simps) (simp add: Let_def)
          moreover have "matches + 1 \<le> 2" using c3 by simp
          ultimately show ?thesis
            using "1.IH"(3) [OF True c1 c2 refl c3 "1.prems"(1)] unfolding cnt by simp
        qed
      qed
    qed
  qed
qed

lemma eproc_eid_loop_iff:
  assumes "wf_template t"
  shows "eproc_eid_loop t ds \<longleftrightarrow> scope_first t ds"
proof (induction ds)
  case Nil
  show ?case by (simp add: scope_first_def)
next
  case (Cons d ds)
  have n: "unat (fields_cnt_total t) = length (fields_t t)"
    using assms by (simp add: wf_template_def)
  have f: "map_option (nth (fields_t t)) (fds_template_find t 0 d)
             = List.find (\<lambda>f. id_f f = d \<and> en f = 0) (fields_t t)"
    using cfind_loop_find [OF n, of 0 d 0]
    by (simp add: fds_template_find_def fds_template_cfind_def)
  have tail: "scope_first t (d # ds)
      \<longleftrightarrow> (case List.find (\<lambda>f. id_f f = d \<and> en f = 0) (fields_t t) of
            None \<Rightarrow> False
          | Some f \<Rightarrow> FDS_TFIELD_SCOPE \<in> flags_f f \<and> FDS_TFIELD_LAST_IE \<in> flags_f f)
          \<or> scope_first t ds"
    by (simp add: scope_first_def)
  show ?case
  proof (cases "fds_template_find t 0 d")
    case None
    then have "List.find (\<lambda>f. id_f f = d \<and> en f = 0) (fields_t t) = None"
      using f by simp
    then show ?thesis
      using None Cons.IH unfolding tail by simp
  next
    case (Some p)
    then have "List.find (\<lambda>f. id_f f = d \<and> en f = 0) (fields_t t) = Some (fields_t t ! p)"
      using f by simp
    then show ?thesis
      using Some Cons.IH unfolding tail by auto
  qed
qed

lemma opts_detect_eproc_iff:
  assumes wf: "wf_template t" and sc: "unat (fields_cnt_scope t) \<le> unat (fields_cnt_total t)"
  shows "FDS_OPTS_EPROC_RELIABILITY_STAT \<in> opts_types (opts_detect_eproc t)
     \<longleftrightarrow> FDS_OPTS_EPROC_RELIABILITY_STAT \<in> opts_types t
         \<or> scope_first t [130, 131, 144] \<and> nonscope_has t 166 \<and> nonscope_has t 167
             \<and> nonscope_has t 168 \<and> obs_time_count t = 2"
proof -
  have n: "unat (fields_cnt_total t) = length (fields_t t)"
    using wf by (simp add: wf_template_def)
  have req: "opts_has_required t [(166, 0), (167, 0), (168, 0)]
      \<longleftrightarrow> nonscope_has t 166 \<and> nonscope_has t 167 \<and> nonscope_has t 168"
    unfolding opts_has_required_iff [OF wf sc] by (simp add: nonscope_has_def)
  have obs: "opts_has_obs_time t \<longleftrightarrow> obs_time_count t = 2"
    using obs_time_loop_iff [OF n, of 0 "unat (fields_cnt_scope t)"]
    by (simp add: opts_has_obs_time_def obs_time_count_def)
  have eid: "eproc_eid_loop t [130, 131, 144] \<longleftrightarrow> scope_first t [130, 131, 144]"
    by (rule eproc_eid_loop_iff [OF wf])
  show ?thesis
    unfolding opts_detect_eproc_def Let_def eid req obs
    by (auto simp add: add_opts_type_def)
qed

lemma opts_detect_mproc_eproc:
  "FDS_OPTS_EPROC_RELIABILITY_STAT \<in> opts_types (opts_detect_mproc t)
     \<longleftrightarrow> FDS_OPTS_EPROC_RELIABILITY_STAT \<in> opts_types t"
  by (simp add: opts_detect_mproc_def Let_def add_opts_type_def)

lemma opts_detect_flowkey_eproc:
  "FDS_OPTS_EPROC_RELIABILITY_STAT \<in> opts_types (opts_detect_flowkey t)
     \<longleftrightarrow> FDS_OPTS_EPROC_RELIABILITY_STAT \<in> opts_types t"
  by (simp add: opts_detect_flowkey_def Let_def add_opts_type_def split: option.split)

lemma opts_detect_ietype_eproc:
  "FDS_OPTS_EPROC_RELIABILITY_STAT \<in> opts_types (opts_detect_ietype t)
     \<longleftrightarrow> FDS_OPTS_EPROC_RELIABILITY_STAT \<in> opts_types t"
  by (simp add: opts_detect_ietype_def Let_def add_opts_type_def)

lemma eproc_conditions_frame:
  assumes "fields_t t' = fields_t t" and "fields_cnt_scope t' = fields_cnt_scope t"
  shows "scope_first t' ds = scope_first t ds" and "nonscope_has t' d = nonscope_has t d"
    and "obs_time_count t' = obs_time_count t"
  using assms by (simp_all add: scope_first_def nonscope_has_def obs_time_count_def)

lemma opts_detector_eproc_iff:
  assumes wf: "wf_template t" and sc: "unat (fields_cnt_scope t) \<le> unat (fields_cnt_total t)"
  shows "FDS_OPTS_EPROC_RELIABILITY_STAT \<in> opts_types (opts_detector t)
     \<longleftrightarrow> FDS_OPTS_EPROC_RELIABILITY_STAT \<in> opts_types t
         \<or> scope_first t [130, 131, 144] \<and> nonscope_has t 166 \<and> nonscope_has t 167
             \<and> nonscope_has t 168 \<and> obs_time_count t = 2"
proof -
  let ?a = "opts_detect_mproc t"
  have a: "?a = t\<lparr>opts_types := opts_types ?a\<rparr>" by (rule opts_detect_mproc_frame)
  have fa: "fields_t ?a = fields_t t" and sa: "fields_cnt_scope ?a = fields_cnt_scope t"
    and ta: "fields_cnt_total ?a = fields_cnt_total t"
    by (subst a, simp)+
  have wfa: "wf_template ?a" using wf by (simp add: wf_template_def fa ta)
  have sca: "unat (fields_cnt_scope ?a) \<le> unat (fields_cnt_total ?a)"
    using sc by (simp add: sa ta)
  show ?thesis
    unfolding opts_detector_def opts_detect_ietype_eproc opts_detect_flowkey_eproc
      opts_detect_eproc_iff [OF wfa sca] opts_detect_mproc_eproc
      eproc_conditions_frame [OF fa sa] ..
qed

text \<open>
  C5, as amended. For the template of a successfully parsed Options Template record with
  fields, the types hold EPROC_RELIABILITY_STAT exactly if for one of the elements 130, 131
  and 144 (enterprise number 0) the first field of the template with that element carries
  SCOPE and LAST_IE, the fields behind the scope fields include 166, 167 and 168, and exactly
  two of them have an id from 322 to 325 with the enterprise number 0.
\<close>

theorem parse_eproc_first:
  assumes "fds_template_parse calloc_ok malloc_ok FDS_TYPE_TEMPLATE_OPTS ptr len tmplt
             = (FDS_OK, len', Some t)"
    and "fields_cnt_total t \<noteq> 0"
  shows "FDS_OPTS_EPROC_RELIABILITY_STAT \<in> opts_types t
     \<longleftrightarrow> scope_first t [130, 131, 144] \<and> nonscope_has t 166 \<and> nonscope_has t 167
         \<and> nonscope_has t 168 \<and> obs_time_count t = 2"
proof -
  from parse_ok_cases [OF assms(1)] assms(2) obtain t0 where
    t0: "pre_features t0" "template_calc_features t0 = Inr t"
    and ty: "type_t t0 = FDS_TYPE_TEMPLATE_OPTS"
    by auto
  from template_calc_features_post(1) [OF t0] ty obtain t2 where
    t: "t = (opts_detector t2)\<lparr>data_length := data_length t\<rparr>"
    and t2: "t2 = t0\<lparr>fields_t := fields_t t, flags_t := flags_t t\<rparr>"
    by auto
  have d: "opts_detector t2 = t2\<lparr>opts_types := opts_types (opts_detector t2)\<rparr>"
    by (rule opts_detector_frame)
  have ot: "opts_types t = opts_types (opts_detector t2)"
    by (subst t) simp
  have ft: "fields_t t2 = fields_t t" by (simp add: t2)
  have st: "fields_cnt_scope t2 = fields_cnt_scope t"
    by (subst t, subst d) simp
  have ct: "fields_cnt_total t2 = fields_cnt_total t"
    by (subst t, subst d) simp
  have o2: "opts_types t2 = {}"
    using t0(1) by (simp add: t2 pre_features_def)
  have wf2: "wf_template t2"
    using template_calc_features_post(2) [OF t0] by (simp add: wf_template_def ft ct)
  have sc2: "unat (fields_cnt_scope t2) \<le> unat (fields_cnt_total t2)"
    using t0(1) by (simp add: t2 pre_features_def)
  show ?thesis
    unfolding ot opts_detector_eproc_iff [OF wf2 sc2] o2 eproc_conditions_frame [OF ft st]
    by simp
qed

lemma parse_ex_eproc_once:
  "fds_template_parse True True FDS_TYPE_TEMPLATE_OPTS ex_eproc_once_raw 30 None
     = (FDS_OK, 30, Some ex_eproc_once)"
  by code_simp

theorem parse_eproc_first_witness:
  "(FDS_OPTS_EPROC_RELIABILITY_STAT \<in> opts_types ex_eproc_once
     \<longleftrightarrow> scope_first ex_eproc_once [130, 131, 144] \<and> nonscope_has ex_eproc_once 166
         \<and> nonscope_has ex_eproc_once 167 \<and> nonscope_has ex_eproc_once 168
         \<and> obs_time_count ex_eproc_once = 2)
   \<and> FDS_OPTS_EPROC_RELIABILITY_STAT \<in> opts_types ex_eproc_once"
proof -
  have "fields_cnt_total ex_eproc_once \<noteq> 0" by (simp add: ex_eproc_once_def)
  with parse_ex_eproc_once have "FDS_OPTS_EPROC_RELIABILITY_STAT \<in> opts_types ex_eproc_once
     \<longleftrightarrow> scope_first ex_eproc_once [130, 131, 144] \<and> nonscope_has ex_eproc_once 166
         \<and> nonscope_has ex_eproc_once 167 \<and> nonscope_has ex_eproc_once 168
         \<and> obs_time_count ex_eproc_once = 2"
    by (rule parse_eproc_first)
  moreover have "FDS_OPTS_EPROC_RELIABILITY_STAT \<in> opts_types ex_eproc_once"
    by (simp add: ex_eproc_once_def)
  ultimately show ?thesis by (rule conjI)
qed

text \<open>
  C5, as stated, fails on the record with the scope fields 130 and 130: its second field is a
  scope field with the element 130 that carries LAST_IE, the other conditions hold, and the
  parsed template has no type.
\<close>

theorem parse_eproc_any_counterexample:
  "fds_template_parse True True FDS_TYPE_TEMPLATE_OPTS ex_eproc_twice_raw 34 None
     = (FDS_OK, 34, Some ex_eproc_twice)
   \<and> fields_cnt_total ex_eproc_twice \<noteq> 0
   \<and> FDS_OPTS_EPROC_RELIABILITY_STAT \<notin> opts_types ex_eproc_twice
   \<and> scope_any ex_eproc_twice [130, 131, 144] \<and> nonscope_has ex_eproc_twice 166
   \<and> nonscope_has ex_eproc_twice 167 \<and> nonscope_has ex_eproc_twice 168
   \<and> obs_time_count ex_eproc_twice = 2"
proof -
  have "fds_template_parse True True FDS_TYPE_TEMPLATE_OPTS ex_eproc_twice_raw 34 None
     = (FDS_OK, 34, Some ex_eproc_twice)"
    by code_simp
  moreover have "fields_cnt_total ex_eproc_twice \<noteq> 0"
    and "FDS_OPTS_EPROC_RELIABILITY_STAT \<notin> opts_types ex_eproc_twice"
    by (simp_all add: ex_eproc_twice_def)
  moreover have "scope_any ex_eproc_twice [130, 131, 144]"
    by (simp add: scope_any_def ex_eproc_twice_def)
  moreover have "nonscope_has ex_eproc_twice 166" and "nonscope_has ex_eproc_twice 167"
    and "nonscope_has ex_eproc_twice 168"
    by (simp_all add: nonscope_has_def ex_eproc_twice_def)
  moreover have "obs_time_count ex_eproc_twice = 2"
    by (simp add: obs_time_count_def ex_eproc_twice_def)
  ultimately show ?thesis by simp
qed

subsection \<open>The parser reads the octets it consumes only\<close>

lemma unat_sub_field_size:
  "\<not> lr < field_size \<Longrightarrow> unat (lr - field_size) = unat lr - 4" for lr :: u16
  by (simp add: field_size_def not_less unat_sub)

lemma less_field_size_iff: "lr < field_size \<longleftrightarrow> unat lr < 4" for lr :: u16
  by (simp add: field_size_def word_less_nat_alt)

lemma parse_fields_loop_le:
  assumes "template_parse_fields_loop ptr cnt i pos lr fs = Inr (lr', fs')"
  shows "unat lr' \<le> unat lr"
  using assms
proof (induction ptr cnt i pos lr fs rule: template_parse_fields_loop.induct)
  case (1 ptr fields_cnt i pos len_remain fs)
  let ?fs1 = "fs[i := (fs ! i)\<lparr>length_f := ntohs_at ptr (pos + 2)\<rparr>]"
  let ?fs2 = "?fs1[i := (?fs1 ! i)\<lparr>id_f := ntohs_at ptr pos\<rparr>]"
  let ?fs3 = "?fs2[i := (?fs2 ! i)\<lparr>id_f := EN_BIT_MASK (id_f (?fs2 ! i))\<rparr>]"
  let ?fs4 = "?fs3[i := (?fs3 ! i)\<lparr>en := ntohl_at ptr (pos + 4)\<rparr>]"
  show ?case
  proof (cases "i < fields_cnt")
    case False
    then have "lr' = len_remain"
      using "1.prems" by (subst (asm) template_parse_fields_loop.simps) simp
    then show ?thesis by simp
  next
    case True
    note lt = this
    have ok: "\<not> len_remain < field_size"
    proof
      assume "len_remain < field_size"
      then have "template_parse_fields_loop ptr fields_cnt i pos len_remain fs = Inl FDS_ERR_FORMAT"
        using lt by (subst template_parse_fields_loop.simps) simp
      with "1.prems" show False by simp
    qed
    show ?thesis
    proof (cases "EN_BIT_GET (id_f (?fs2 ! i)) = 0")
      case True
      have "template_parse_fields_loop ptr fields_cnt i pos len_remain fs
          = template_parse_fields_loop ptr fields_cnt (i + 1) (pos + 4)
              (len_remain - field_size) ?fs2"
        using lt ok True by (subst template_parse_fields_loop.simps) (simp add: Let_def)
      then have "template_parse_fields_loop ptr fields_cnt (i + 1) (pos + 4)
              (len_remain - field_size) ?fs2 = Inr (lr', fs')"
        using "1.prems" by simp
      then have "unat lr' \<le> unat (len_remain - field_size)"
        by (rule "1.IH"(1) [OF lt ok refl refl True])
      then show ?thesis
        using unat_sub_field_size [OF ok] by simp
    next
      case False
      have ok2: "\<not> len_remain - field_size < field_size"
      proof
        assume "len_remain - field_size < field_size"
        then have "template_parse_fields_loop ptr fields_cnt i pos len_remain fs
                     = Inl FDS_ERR_FORMAT"
          using lt ok False by (subst template_parse_fields_loop.simps) (simp add: Let_def)
        with "1.prems" show False by simp
      qed
      have "template_parse_fields_loop ptr fields_cnt i pos len_remain fs
          = template_parse_fields_loop ptr fields_cnt (i + 1) (pos + 8)
              (len_remain - field_size - field_size) ?fs4"
        using lt ok False ok2 by (subst template_parse_fields_loop.simps) (simp add: Let_def)
      then have "template_parse_fields_loop ptr fields_cnt (i + 1) (pos + 8)
              (len_remain - field_size - field_size) ?fs4 = Inr (lr', fs')"
        using "1.prems" by simp
      then have "unat lr' \<le> unat (len_remain - field_size - field_size)"
        by (rule "1.IH"(2) [OF lt ok refl refl False refl ok2 refl refl])
      then show ?thesis
        using unat_sub_field_size [OF ok] unat_sub_field_size [OF ok2] by simp
    qed
  qed
qed

lemma ntohs_at_cong:
  assumes "bs' ! pos = bs ! pos" and "bs' ! (pos + 1) = bs ! (pos + 1)"
  shows "ntohs_at bs' pos = ntohs_at bs pos"
  using assms by (simp add: ntohs_at_def)

lemma ntohl_at_cong:
  assumes "bs' ! pos = bs ! pos" and "bs' ! (pos + 1) = bs ! (pos + 1)"
    and "bs' ! (pos + 2) = bs ! (pos + 2)" and "bs' ! (pos + 3) = bs ! (pos + 3)"
  shows "ntohl_at bs' pos = ntohl_at bs pos"
  using assms by (simp add: ntohl_at_def)

lemma parse_fields_loop_prefix:
  assumes "template_parse_fields_loop ptr cnt i pos lr fs = Inr (lr', fs')"
    and "\<forall>k. pos \<le> k \<and> k < pos + (unat lr - unat lr') \<longrightarrow> ptr2 ! k = ptr ! k"
    and "unat lr - unat lr' \<le> unat lr2"
  shows "\<exists>lr2'. template_parse_fields_loop ptr2 cnt i pos lr2 fs = Inr (lr2', fs')
           \<and> unat lr2' \<le> unat lr2 \<and> unat lr2 - unat lr2' = unat lr - unat lr'"
  using assms
proof (induction ptr cnt i pos lr fs arbitrary: lr2 rule: template_parse_fields_loop.induct)
  case (1 ptr fields_cnt i pos len_remain fs)
  let ?fs1 = "fs[i := (fs ! i)\<lparr>length_f := ntohs_at ptr (pos + 2)\<rparr>]"
  let ?fs2 = "?fs1[i := (?fs1 ! i)\<lparr>id_f := ntohs_at ptr pos\<rparr>]"
  let ?fs3 = "?fs2[i := (?fs2 ! i)\<lparr>id_f := EN_BIT_MASK (id_f (?fs2 ! i))\<rparr>]"
  let ?fs4 = "?fs3[i := (?fs3 ! i)\<lparr>en := ntohl_at ptr (pos + 4)\<rparr>]"
  let ?gs1 = "fs[i := (fs ! i)\<lparr>length_f := ntohs_at ptr2 (pos + 2)\<rparr>]"
  let ?gs2 = "?gs1[i := (?gs1 ! i)\<lparr>id_f := ntohs_at ptr2 pos\<rparr>]"
  let ?gs3 = "?gs2[i := (?gs2 ! i)\<lparr>id_f := EN_BIT_MASK (id_f (?gs2 ! i))\<rparr>]"
  let ?gs4 = "?gs3[i := (?gs3 ! i)\<lparr>en := ntohl_at ptr2 (pos + 4)\<rparr>]"
  let ?c = "unat len_remain - unat lr'"
  have le: "unat lr' \<le> unat len_remain"
    using "1.prems"(1) by (rule parse_fields_loop_le)
  show ?case
  proof (cases "i < fields_cnt")
    case False
    then have r: "lr' = len_remain" "fs' = fs"
      using "1.prems"(1) by (subst (asm) template_parse_fields_loop.simps, simp)+
    have "template_parse_fields_loop ptr2 fields_cnt i pos lr2 fs = Inr (lr2, fs)"
      using False by (subst template_parse_fields_loop.simps) simp
    then show ?thesis using r by simp
  next
    case True
    note lt = this
    have ok: "\<not> len_remain < field_size"
    proof
      assume "len_remain < field_size"
      then have "template_parse_fields_loop ptr fields_cnt i pos len_remain fs = Inl FDS_ERR_FORMAT"
        using lt by (subst template_parse_fields_loop.simps) simp
      with "1.prems"(1) show False by simp
    qed
    show ?thesis
    proof (cases "EN_BIT_GET (id_f (?fs2 ! i)) = 0")
      case True
      have "template_parse_fields_loop ptr fields_cnt i pos len_remain fs
          = template_parse_fields_loop ptr fields_cnt (i + 1) (pos + 4)
              (len_remain - field_size) ?fs2"
        using lt ok True by (subst template_parse_fields_loop.simps) (simp add: Let_def)
      then have rec: "template_parse_fields_loop ptr fields_cnt (i + 1) (pos + 4)
              (len_remain - field_size) ?fs2 = Inr (lr', fs')"
        using "1.prems"(1) by simp
      have le4: "unat lr' \<le> unat len_remain - 4"
        using parse_fields_loop_le [OF rec] unat_sub_field_size [OF ok] by simp
      have l4: "4 \<le> unat len_remain"
        using ok by (simp add: less_field_size_iff)
      have c4: "4 \<le> ?c" using le4 l4 by simp
      have bytes: "\<And>k. pos \<le> k \<Longrightarrow> k < pos + 4 \<Longrightarrow> ptr2 ! k = ptr ! k"
        using "1.prems"(2) c4 by simp
      have g2: "?gs2 = ?fs2"
        using ntohs_at_cong [of ptr2 pos ptr] ntohs_at_cong [of ptr2 "pos + 2" ptr] bytes
        by simp
      have ok': "\<not> lr2 < field_size"
        using "1.prems"(3) c4 by (simp add: less_field_size_iff)
      have step2: "template_parse_fields_loop ptr2 fields_cnt i pos lr2 fs
          = template_parse_fields_loop ptr2 fields_cnt (i + 1) (pos + 4)
              (lr2 - field_size) ?fs2"
        using lt ok' True g2 by (subst template_parse_fields_loop.simps) (simp add: Let_def)
      have h1: "\<forall>k. pos + 4 \<le> k \<and> k < pos + 4 + (unat (len_remain - field_size) - unat lr')
                  \<longrightarrow> ptr2 ! k = ptr ! k"
        using "1.prems"(2) unat_sub_field_size [OF ok] l4 le4 by simp
      have h2: "unat (len_remain - field_size) - unat lr' \<le> unat (lr2 - field_size)"
        using "1.prems"(3) unat_sub_field_size [OF ok] unat_sub_field_size [OF ok'] by simp
      from "1.IH"(1) [OF lt ok refl refl True rec h1 h2] obtain lr2' where
        r: "template_parse_fields_loop ptr2 fields_cnt (i + 1) (pos + 4)
              (lr2 - field_size) ?fs2 = Inr (lr2', fs')"
        and a: "unat lr2' \<le> unat (lr2 - field_size)"
        and b: "unat (lr2 - field_size) - unat lr2' = unat (len_remain - field_size) - unat lr'"
        by blast
      have l4': "4 \<le> unat lr2"
        using ok' by (simp add: less_field_size_iff)
      have "unat lr2' \<le> unat lr2"
        using a unat_sub_field_size [OF ok'] by simp
      moreover have "unat lr2 - unat lr2' = ?c"
        using a b unat_sub_field_size [OF ok'] unat_sub_field_size [OF ok] l4 l4' le4 by simp
      ultimately show ?thesis
        using r step2 by simp
    next
      case False
      have ok2: "\<not> len_remain - field_size < field_size"
      proof
        assume "len_remain - field_size < field_size"
        then have "template_parse_fields_loop ptr fields_cnt i pos len_remain fs
                     = Inl FDS_ERR_FORMAT"
          using lt ok False by (subst template_parse_fields_loop.simps) (simp add: Let_def)
        with "1.prems"(1) show False by simp
      qed
      have "template_parse_fields_loop ptr fields_cnt i pos len_remain fs
          = template_parse_fields_loop ptr fields_cnt (i + 1) (pos + 8)
              (len_remain - field_size - field_size) ?fs4"
        using lt ok False ok2 by (subst template_parse_fields_loop.simps) (simp add: Let_def)
      then have rec: "template_parse_fields_loop ptr fields_cnt (i + 1) (pos + 8)
              (len_remain - field_size - field_size) ?fs4 = Inr (lr', fs')"
        using "1.prems"(1) by simp
      have u1: "unat (len_remain - field_size) = unat len_remain - 4"
        by (rule unat_sub_field_size [OF ok])
      have u2: "unat (len_remain - field_size - field_size) = unat len_remain - 8"
        using unat_sub_field_size [OF ok2] u1 by simp
      have l8: "8 \<le> unat len_remain"
        using ok2 u1 ok by (simp add: less_field_size_iff)
      have le8: "unat lr' \<le> unat len_remain - 8"
        using parse_fields_loop_le [OF rec] u2 by simp
      have c8: "8 \<le> ?c" using le8 l8 by simp
      have bytes: "\<And>k. pos \<le> k \<Longrightarrow> k < pos + 8 \<Longrightarrow> ptr2 ! k = ptr ! k"
        using "1.prems"(2) c8 by simp
      have g2: "?gs2 = ?fs2"
        using ntohs_at_cong [of ptr2 pos ptr] ntohs_at_cong [of ptr2 "pos + 2" ptr] bytes
        by simp
      have nl: "ntohl_at ptr2 (pos + 4) = ntohl_at ptr (pos + 4)"
        by (rule ntohl_at_cong) (simp_all add: bytes)
      have g4: "?gs4 = ?fs4"
        by (simp only: g2 nl)
      have ok': "\<not> lr2 < field_size"
        using "1.prems"(3) c8 by (simp add: less_field_size_iff)
      have v1: "unat (lr2 - field_size) = unat lr2 - 4"
        by (rule unat_sub_field_size [OF ok'])
      have ok2': "\<not> lr2 - field_size < field_size"
        using "1.prems"(3) c8 v1 by (simp add: less_field_size_iff)
      have v2: "unat (lr2 - field_size - field_size) = unat lr2 - 8"
        using unat_sub_field_size [OF ok2'] v1 by simp
      have step2: "template_parse_fields_loop ptr2 fields_cnt i pos lr2 fs
          = template_parse_fields_loop ptr2 fields_cnt (i + 1) (pos + 8)
              (lr2 - field_size - field_size) ?fs4"
        using lt ok' False ok2' g2 g4
        by (subst template_parse_fields_loop.simps) (simp add: Let_def)
      have h1: "\<forall>k. pos + 8 \<le> k
                    \<and> k < pos + 8 + (unat (len_remain - field_size - field_size) - unat lr')
                  \<longrightarrow> ptr2 ! k = ptr ! k"
        using "1.prems"(2) u2 l8 le8 by simp
      have h2: "unat (len_remain - field_size - field_size) - unat lr'
                  \<le> unat (lr2 - field_size - field_size)"
        using "1.prems"(3) u2 v2 by simp
      from "1.IH"(2) [OF lt ok refl refl False refl ok2 refl refl rec h1 h2] obtain lr2' where
        r: "template_parse_fields_loop ptr2 fields_cnt (i + 1) (pos + 8)
              (lr2 - field_size - field_size) ?fs4 = Inr (lr2', fs')"
        and a: "unat lr2' \<le> unat (lr2 - field_size - field_size)"
        and b: "unat (lr2 - field_size - field_size) - unat lr2'
                  = unat (len_remain - field_size - field_size) - unat lr'"
        by blast
      have l8': "8 \<le> unat lr2"
        using "1.prems"(3) c8 by simp
      have "unat lr2' \<le> unat lr2"
        using a v2 by simp
      moreover have "unat lr2 - unat lr2' = ?c"
        using a b u2 v2 l8 l8' le8 by simp
      ultimately show ?thesis
        using r step2 by simp
    qed
  qed
qed

lemma parse_header_Inr:
  assumes "template_parse_header c ty ptr len = Inr (t0, lh)"
  shows "c" and "\<not> len < size_normal" and "\<not> ntohs_at ptr 0 < IPFIX_SET_MIN_DATA_SET_ID"
    and "fields_cnt_total t0 = ntohs_at ptr 2"
    and "ntohs_at ptr 2 \<noteq> 0 \<and> ty = FDS_TYPE_TEMPLATE_OPTS
           \<Longrightarrow> \<not> len < size_opts \<and> ntohs_at ptr 4 \<noteq> 0 \<and> \<not> ntohs_at ptr 4 > ntohs_at ptr 2
               \<and> lh = size_opts
               \<and> t0 = \<lparr>type_t = ty, opts_types = {}, id_t = ntohs_at ptr 0, flags_t = {},
                       data_length = 0, raw = [], fields_cnt_total = ntohs_at ptr 2,
                       fields_cnt_scope = ntohs_at ptr 4,
                       fields_t = replicate (unat (ntohs_at ptr 2)) zero_tfield\<rparr>"
    and "\<not> (ntohs_at ptr 2 \<noteq> 0 \<and> ty = FDS_TYPE_TEMPLATE_OPTS)
           \<Longrightarrow> lh = size_normal
               \<and> t0 = \<lparr>type_t = ty, opts_types = {}, id_t = ntohs_at ptr 0, flags_t = {},
                       data_length = 0, raw = [], fields_cnt_total = ntohs_at ptr 2,
                       fields_cnt_scope = 0,
                       fields_t = replicate (unat (ntohs_at ptr 2)) zero_tfield\<rparr>"
proof -
  show "c" and "\<not> len < size_normal" and "\<not> ntohs_at ptr 0 < IPFIX_SET_MIN_DATA_SET_ID"
    and "fields_cnt_total t0 = ntohs_at ptr 2"
    using assms
    by (auto simp add: template_parse_header_def Let_def template_create_empty_def
          split: if_splits)
  show "\<not> len < size_opts \<and> ntohs_at ptr 4 \<noteq> 0 \<and> \<not> ntohs_at ptr 4 > ntohs_at ptr 2
               \<and> lh = size_opts
               \<and> t0 = \<lparr>type_t = ty, opts_types = {}, id_t = ntohs_at ptr 0, flags_t = {},
                       data_length = 0, raw = [], fields_cnt_total = ntohs_at ptr 2,
                       fields_cnt_scope = ntohs_at ptr 4,
                       fields_t = replicate (unat (ntohs_at ptr 2)) zero_tfield\<rparr>"
    if "ntohs_at ptr 2 \<noteq> 0 \<and> ty = FDS_TYPE_TEMPLATE_OPTS"
    using assms that
    by (auto simp add: template_parse_header_def Let_def template_create_empty_def
          split: if_splits)
  show "lh = size_normal
               \<and> t0 = \<lparr>type_t = ty, opts_types = {}, id_t = ntohs_at ptr 0, flags_t = {},
                       data_length = 0, raw = [], fields_cnt_total = ntohs_at ptr 2,
                       fields_cnt_scope = 0,
                       fields_t = replicate (unat (ntohs_at ptr 2)) zero_tfield\<rparr>"
    if "\<not> (ntohs_at ptr 2 \<noteq> 0 \<and> ty = FDS_TYPE_TEMPLATE_OPTS)"
    using assms that
    by (auto simp add: template_parse_header_def Let_def template_create_empty_def
          split: if_splits)
qed

lemma parse_header_size:
  assumes "template_parse_header c ty ptr len = Inr (t0, lh)"
  shows "(lh = 4 \<or> lh = 6) \<and> lh \<le> len"
proof (cases "ntohs_at ptr 2 \<noteq> 0 \<and> ty = FDS_TYPE_TEMPLATE_OPTS")
  case True
  from parse_header_Inr(5) [OF assms True] show ?thesis
    by (simp add: size_opts_def not_less)
next
  case False
  from parse_header_Inr(6) [OF assms False] parse_header_Inr(2) [OF assms] show ?thesis
    by (simp add: size_normal_def not_less)
qed

lemma parse_header_prefix:
  assumes hdr: "template_parse_header c ty ptr len = Inr (t0, lh)"
    and bytes: "\<And>k. k < unat lh \<Longrightarrow> ptr2 ! k = ptr ! k" and len2: "lh \<le> len2"
  shows "template_parse_header True ty ptr2 len2 = Inr (t0, lh)"
proof -
  have sz: "lh = 4 \<or> lh = 6" using parse_header_size [OF hdr] by simp
  then have l4: "4 \<le> unat lh" by auto
  have b0: "ntohs_at ptr2 0 = ntohs_at ptr 0"
    by (rule ntohs_at_cong) (use l4 in \<open>simp_all add: bytes\<close>)
  have b2: "ntohs_at ptr2 2 = ntohs_at ptr 2"
    by (rule ntohs_at_cong) (use l4 in \<open>simp_all add: bytes\<close>)
  have n4: "\<not> len2 < size_normal"
    using len2 sz by (auto simp add: size_normal_def not_less elim: order_trans [rotated])
  note h = parse_header_Inr [OF hdr]
  show ?thesis
  proof (cases "ntohs_at ptr 2 \<noteq> 0 \<and> ty = FDS_TYPE_TEMPLATE_OPTS")
    case True
    note o = h(5) [OF True]
    then have lh6: "lh = 6" by (simp add: size_opts_def)
    have b4: "ntohs_at ptr2 4 = ntohs_at ptr 4"
      by (rule ntohs_at_cong) (use lh6 in \<open>simp_all add: bytes\<close>)
    have n6: "\<not> len2 < size_opts"
      using len2 lh6 by (simp add: size_opts_def not_less)
    show ?thesis
      using True o n4 n6 h(3)
      by (simp add: template_parse_header_def Let_def template_create_empty_def b0 b2 b4)
  next
    case False
    note o = h(6) [OF False]
    show ?thesis
      using False o n4 h(3)
      by (auto simp add: template_parse_header_def Let_def template_create_empty_def b0 b2)
  qed
qed

lemma raw_copy_Inr:
  "template_raw_copy m t ptr n = Inr t' \<longleftrightarrow> m \<and> t' = t\<lparr>raw := take (unat n) ptr\<rparr>"
  by (auto simp add: template_raw_copy_def)

lemma raw_copy_Inl: "template_raw_copy m t ptr n = Inl e \<Longrightarrow> e = FDS_ERR_NOMEM"
  by (auto simp add: template_raw_copy_def split: if_splits)

text \<open>
  C10. Let a call of the parser succeed and consume \<open>n\<close> octets. Then a call for the same
  template type on any buffer whose declared length is at least \<open>n\<close> and whose first \<open>n\<close>
  octets are those of the first buffer succeeds as well while its allocations succeed,
  consumes \<open>n\<close> octets and returns the same template, with the same fields, flags and raw
  octets.
\<close>

theorem parse_prefix_determined:
  assumes first: "fds_template_parse calloc_ok malloc_ok type ptr1 len1 tmplt1
                    = (FDS_OK, n, Some t)"
    and n2: "n \<le> len2"
    and same: "take (unat n) ptr2 = take (unat n) ptr1"
  shows "fds_template_parse True True type ptr2 len2 tmplt2 = (FDS_OK, n, Some t)"
proof -
  have bytes: "ptr2 ! k = ptr1 ! k" if "k < unat n" for k
  proof -
    have "take (unat n) ptr2 ! k = take (unat n) ptr1 ! k" by (simp only: same)
    then show ?thesis using that by simp
  qed
  show ?thesis
  proof (cases "template_parse_header calloc_ok type ptr1 len1")
    case (Inl e)
    then have "e \<noteq> FDS_OK" by (rule parse_header_error)
    with Inl first show ?thesis by (simp add: fds_template_parse_def)
  next
    case (Inr p)
    obtain t0 lh where p: "p = (t0, lh)" by (cases p)
    note hdr = Inr [unfolded p]
    have sz: "lh = 4 \<or> lh = 6" and lh1: "lh \<le> len1"
      using parse_header_size [OF hdr] by simp_all
    show ?thesis
    proof (cases "fields_cnt_total t0 = 0")
      case True
      have res: "n = lh \<and> t = t0\<lparr>raw := take (unat lh) ptr1\<rparr>"
        using first hdr True
        by (auto simp add: fds_template_parse_def template_raw_copy_def split: if_splits)
      then have hdr2: "template_parse_header True type ptr2 len2 = Inr (t0, lh)"
        using hdr bytes n2 by (intro parse_header_prefix) simp_all
      show ?thesis
        using hdr2 True res same
        by (simp add: fds_template_parse_def template_raw_copy_def)
    next
      case False
      show ?thesis
      proof (cases "template_parse_fields_loop ptr1 (unat (fields_cnt_total t0)) 0 (unat lh)
                      (len1 - lh) (fields_t t0)")
        case (Inl e)
        then have "e = FDS_ERR_FORMAT" by (rule parse_fields_loop_error)
        with Inl first hdr False show ?thesis
          by (simp add: fds_template_parse_def template_parse_fields_def)
      next
        case (Inr q)
        obtain lr fs where q: "q = (lr, fs)" by (cases q)
        note loop = Inr [unfolded q]
        let ?lf = "len1 - lh - lr"
        let ?t1 = "t0\<lparr>fields_t := fs\<rparr>"
        have pf: "template_parse_fields t0 ptr1 (unat lh) (len1 - lh) = Inr (?t1, ?lf)"
          by (simp add: template_parse_fields_def loop)
        have res: "n = lh + ?lf"
          and cf: "template_calc_features (?t1\<lparr>raw := take (unat n) ptr1\<rparr>) = Inr t"
          using first hdr False pf
            calc_features_error [of "?t1\<lparr>raw := take (unat (lh + ?lf)) ptr1\<rparr>"]
          by (auto simp add: fds_template_parse_def template_raw_copy_def Let_def
                split: if_splits sum.splits)
        have le: "unat lr \<le> unat (len1 - lh)"
          using loop by (rule parse_fields_loop_le)
        have u1: "unat (len1 - lh) = unat len1 - unat lh"
          using lh1 by (simp add: unat_sub)
        have ulh: "unat lh \<le> unat len1"
          using lh1 by (simp add: word_le_nat_alt)
        let ?c = "unat (len1 - lh) - unat lr"
        have ulf: "unat ?lf = ?c"
          using le by (simp add: unat_sub word_le_nat_alt)
        have "unat lh + unat ?lf < 2 ^ LENGTH(16)"
        proof -
          have "unat len1 < 2 ^ LENGTH(16)" by (rule unsigned_less)
          then show ?thesis using ulf u1 ulh le by simp
        qed
        then have un: "unat n = unat lh + ?c"
          unfolding res using ulf by (simp only: unat_add_lem [THEN iffD1])
        have un2: "unat n \<le> unat len2"
          using n2 by (simp add: word_le_nat_alt)
        have lh2: "lh \<le> len2"
          using un un2 by (simp add: word_le_nat_alt)
        have u2: "unat (len2 - lh) = unat len2 - unat lh"
          using lh2 by (simp add: unat_sub)
        have hdr2: "template_parse_header True type ptr2 len2 = Inr (t0, lh)"
          using hdr bytes lh2 un by (intro parse_header_prefix) simp_all
        have h1: "\<forall>k. unat lh \<le> k \<and> k < unat lh + ?c \<longrightarrow> ptr2 ! k = ptr1 ! k"
          using bytes un by simp
        have h2: "?c \<le> unat (len2 - lh)"
          using un un2 u2 by simp
        from parse_fields_loop_prefix [OF loop h1 h2] obtain lr2 where
          loop2: "template_parse_fields_loop ptr2 (unat (fields_cnt_total t0)) 0 (unat lh)
                    (len2 - lh) (fields_t t0) = Inr (lr2, fs)"
          and a: "unat lr2 \<le> unat (len2 - lh)"
          and b: "unat (len2 - lh) - unat lr2 = ?c"
          by blast
        have "unat (len2 - lh - lr2) = unat ?lf"
          using a b ulf by (simp add: unat_sub word_le_nat_alt)
        then have lf2: "len2 - lh - lr2 = ?lf"
          by (rule word_unat_eq_iff [THEN iffD2])
        have pf2: "template_parse_fields t0 ptr2 (unat lh) (len2 - lh) = Inr (?t1, ?lf)"
          by (simp add: template_parse_fields_def loop2 lf2)
        show ?thesis
          using hdr2 False pf2 cf same
          by (simp add: fds_template_parse_def template_raw_copy_def Let_def res [symmetric])
      qed
    qed
  qed
qed

theorem parse_prefix_determined_witness:
  "fds_template_parse True True FDS_TYPE_TEMPLATE ex_multi_raw2 21 None
     = (FDS_OK, 16, Some ex_multi)"
  by (rule parse_prefix_determined [OF parse_ex_multi])
     (simp_all add: ex_multi_raw_def ex_multi_raw2_def)

end
